theory Spec2Isabelle
  imports Complex_Main
begin

section \<open>Form detection engine (form-detection-engine.js)\<close>

subsection \<open>The part of the DOM the engine reads\<close>

text \<open>
  A document may or may not have a view (\<open>document.defaultView\<close> is \<open>null\<close> for a
  document outside a browsing context); an element may or may not have an owning document.
  \<open>getComputedStyle(node)\<close> is a capability of the view: the style it returns for a node is
  carried by the node. Strings that JavaScript reads with \<open>x || ''\<close> are plain strings, the
  empty string standing for an absent or empty property.
\<close>

datatype window = Window

datatype document = Document (defaultView: "window option")

record computed_style =
  display :: string
  visibility :: string
  opacity :: string

record node_props =
  nodeType :: nat
  ownerDocument :: "document option"
  computed :: computed_style
  classList :: "string list"
  ariaHidden :: "string option"
  el_name :: string
  el_id :: string
  el_type :: string
  tagName :: string
  el_placeholder :: string
  el_required :: bool
  el_autocomplete :: string
  el_disabled :: bool
  rect_top :: real
  rect_bottom :: real

datatype element = Element (props: node_props) (parentElement: "element option")

text \<open>A \<open>TypeError\<close> of the engine itself, or whatever a function of the caller throws.\<close>

datatype js_error = TypeError | Thrown string

definition FORM_IGNORE_CLASSES :: "string list" where
  "FORM_IGNORE_CLASSES = [''hidden'', ''invisible'', ''display-none'']"

text \<open>The condition of the \<open>if\<close> inside the loop of \<open>isHidden\<close>, on one node.\<close>

definition hiddenHere :: "node_props \<Rightarrow> bool" where
  "hiddenHere p \<longleftrightarrow>
     display (computed p) = ''none'' \<or>
     visibility (computed p) = ''hidden'' \<or>
     opacity (computed p) = ''0'' \<or>
     list_ex (\<lambda>cls. cls \<in> set (classList p)) FORM_IGNORE_CLASSES \<or>
     (case ariaHidden p of None \<Rightarrow> False | Some v \<Rightarrow> v \<noteq> ''false'')"

text \<open>
  \<open>isHidden\<close> of form-detection-engine.js, lines 10-27. The loop climbs \<open>parentElement\<close>.
  \<open>node.ownerDocument.defaultView.getComputedStyle(node)\<close> dereferences the owning document
  and its view without a test: when either is \<open>null\<close> the property access raises a
  \<open>TypeError\<close>, which is the \<open>Inl\<close> branch here.
\<close>

fun isHidden :: "element \<Rightarrow> js_error + bool" where
  "isHidden (Element p parent) =
     (if nodeType p \<noteq> 1 then Inr False
      else case ownerDocument p of
             None \<Rightarrow> Inl TypeError
           | Some doc \<Rightarrow>
               (case defaultView doc of
                  None \<Rightarrow> Inl TypeError
                | Some view \<Rightarrow>
                    if hiddenHere p then Inr True
                    else (case parent of None \<Rightarrow> Inr False | Some up \<Rightarrow> isHidden up)))"

text \<open>
  The copy of \<open>isHidden\<close> in the consolidated automation core (src/unnamed/part_003, lines
  25-46) tests \<open>!node.ownerDocument || !node.ownerDocument.defaultView\<close> first and returns
  \<open>true\<close> there, so it never raises.
\<close>

fun isHidden_core :: "element \<Rightarrow> js_error + bool" where
  "isHidden_core (Element p parent) =
     (if nodeType p \<noteq> 1 then Inr False
      else if (case ownerDocument p of None \<Rightarrow> True | Some doc \<Rightarrow> defaultView doc = None)
      then Inr True
      else if hiddenHere p then Inr True
      else (case parent of None \<Rightarrow> Inr False | Some up \<Rightarrow> isHidden_core up))"

text \<open>A node is detached when it has no owning document or its document has no view.\<close>

definition detached :: "element \<Rightarrow> bool" where
  "detached el \<longleftrightarrow>
     (case ownerDocument (props el) of None \<Rightarrow> True | Some doc \<Rightarrow> defaultView doc = None)"

text \<open>A visible text input, used to build concrete pages.\<close>

definition plainInput :: "string \<Rightarrow> real \<Rightarrow> real \<Rightarrow> node_props" where
  "plainInput nm y0 y1 =
     \<lparr> nodeType = 1, ownerDocument = Some (Document (Some Window)),
       computed = \<lparr> display = ''block'', visibility = ''visible'', opacity = ''1'' \<rparr>,
       classList = [], ariaHidden = None,
       el_name = nm, el_id = [], el_type = ''text'', tagName = ''INPUT'',
       el_placeholder = [], el_required = False, el_autocomplete = [],
       el_disabled = False, rect_top = y0, rect_bottom = y1 \<rparr>"

text \<open>An input element of a document that has no view, and one with no owning document.\<close>

definition viewlessInput :: element where
  "viewlessInput =
     Element ((plainInput ''email'' 0 20) \<lparr> ownerDocument := Some (Document None) \<rparr>) None"

definition orphanInput :: element where
  "orphanInput = Element ((plainInput ''email'' 0 20) \<lparr> ownerDocument := None \<rparr>) None"

subsection \<open>Mapping suggester\<close>

text \<open>
  A field as \<open>extractFormMetadata\<close> and \<open>fallbackVisualDetection\<close> build it.
\<close>

record field_descriptor =
  fld_name :: string
  fld_id :: string
  fld_type :: string
  fld_label :: string
  fld_placeholder :: string
  fld_required :: bool
  fld_autocomplete :: string
  fld_node :: element

text \<open>
  A \<open>RegExp\<close> object, as far as \<open>test\<close> uses it. \<open>re_exec re s i\<close> is what the pattern
  finds in \<open>s\<close> when the search starts at index \<open>i \<le> length s\<close>: the index where the match
  ends, or nothing (a sticky pattern looks at \<open>i\<close> only). \<open>re_keeps\<close> says that the object
  has the \<open>g\<close> or the \<open>y\<close> flag; only then does \<open>test\<close> read and write \<open>lastIndex\<close>.
\<close>

record regexp =
  re_exec :: "string \<Rightarrow> nat \<Rightarrow> nat option"
  re_keeps :: bool
  lastIndex :: nat

text \<open>
  \<open>RegExp.prototype.test\<close>: without \<open>g\<close> and \<open>y\<close> the search starts at 0 and the object is
  left alone. With one of them it starts at \<open>lastIndex\<close>; a start beyond the end of the
  string or a failed search answers \<open>false\<close> and resets \<open>lastIndex\<close> to 0, a match moves
  \<open>lastIndex\<close> to its end.
\<close>

definition regexpTest :: "regexp \<Rightarrow> string \<Rightarrow> bool \<times> regexp" where
  "regexpTest re s =
     (if re_keeps re
      then (if lastIndex re > length s then (False, re \<lparr> lastIndex := 0 \<rparr>)
            else (case re_exec re s (lastIndex re) of
                    None \<Rightarrow> (False, re \<lparr> lastIndex := 0 \<rparr>)
                  | Some e \<Rightarrow> (True, re \<lparr> lastIndex := e \<rparr>)))
      else (case re_exec re s 0 of None \<Rightarrow> (False, re) | Some e \<Rightarrow> (True, re)))"

text \<open>
  The objects of the caller that the rules refer to: the \<open>RegExp\<close> objects, by address
  (two rules may hold the same object), and whatever state the caller's predicate functions
  keep.
\<close>

record matcher_heap =
  regexps :: "nat \<Rightarrow> regexp"
  captured :: nat

text \<open>
  A rule is \<open>{ fieldMatch: RegExp|Function, typeMatch: String|Array, suggest: String }\<close>,
  each key possibly absent. A function is called with the field; it may read and change
  the caller's objects, and it either returns (its value is taken as a truth value) or
  throws.
\<close>

datatype field_matcher =
    NoFieldMatch
  | MatchFunction "matcher_heap \<Rightarrow> field_descriptor \<Rightarrow> (js_error + bool) \<times> matcher_heap"
  | MatchRegExp nat

datatype type_matcher = NoTypeMatch | TypeString string | TypeArray "string list"

record mapping_rule =
  fieldMatch :: field_matcher
  typeMatch :: type_matcher
  suggest :: string


text \<open>\<open>s && re.test(s)\<close>: the empty string is falsy and then \<open>test\<close> is not called.\<close>

definition testIfSet :: "nat \<Rightarrow> string \<Rightarrow> matcher_heap \<Rightarrow> bool \<times> matcher_heap" where
  "testIfSet a s h =
     (if s = [] then (False, h)
      else (case regexpTest (regexps h a) s of
              (found, re) \<Rightarrow> (found, h \<lparr> regexps := (regexps h) (a := re) \<rparr>)))"

text \<open>
  The first operand of \<open>matches\<close> (lines 121-126): the function is called, or the regular
  expression is tested on the name, then on the id, then on the label, stopping at the
  first of them that is set and matches.
\<close>

definition fieldMatches ::
    "field_matcher \<Rightarrow> field_descriptor \<Rightarrow> matcher_heap \<Rightarrow> (js_error + bool) \<times> matcher_heap" where
  "fieldMatches fm field h =
     (case fm of
        NoFieldMatch \<Rightarrow> (Inr False, h)
      | MatchFunction fn \<Rightarrow> fn h field
      | MatchRegExp a \<Rightarrow>
          (case testIfSet a (fld_name field) h of
             (True, h1) \<Rightarrow> (Inr True, h1)
           | (False, h1) \<Rightarrow>
               (case testIfSet a (fld_id field) h1 of
                  (True, h2) \<Rightarrow> (Inr True, h2)
                | (False, h2) \<Rightarrow>
                    (case testIfSet a (fld_label field) h2 of
                       (found, h3) \<Rightarrow> (Inr found, h3)))))"

text \<open>
  The second operand (lines 127-130): \<open>!rule.typeMatch\<close> is true for an absent or empty
  \<open>typeMatch\<close>.
\<close>

definition typeMatches :: "type_matcher \<Rightarrow> field_descriptor \<Rightarrow> bool" where
  "typeMatches tm field \<longleftrightarrow>
     (case tm of
        NoTypeMatch \<Rightarrow> True
      | TypeString t \<Rightarrow> t = [] \<or> fld_type field = t
      | TypeArray ts \<Rightarrow> fld_type field \<in> set ts)"

text \<open>The value of \<open>matches\<close> for one rule, and what its evaluation leaves behind.\<close>

definition ruleMatches ::
    "field_descriptor \<Rightarrow> mapping_rule \<Rightarrow> matcher_heap \<Rightarrow> (js_error + bool) \<times> matcher_heap" where
  "ruleMatches field rule h =
     (case fieldMatches (fieldMatch rule) field h of
        (Inl err, h1) \<Rightarrow> (Inl err, h1)
      | (Inr found, h1) \<Rightarrow> (Inr (found \<and> typeMatches (typeMatch rule) field), h1))"

text \<open>
  The \<open>for (const rule of rules)\<close> loop with its \<open>break\<close>: \<open>bestMatch\<close> starts as
  \<open>null\<close> and receives the \<open>suggest\<close> of the first rule whose \<open>matches\<close> is true; the
  rules after it are not evaluated.
\<close>

fun bestMatch ::
    "field_descriptor \<Rightarrow> mapping_rule list \<Rightarrow> matcher_heap \<Rightarrow>
     (js_error + string option) \<times> matcher_heap" where
  "bestMatch field [] h = (Inr None, h)"
| "bestMatch field (rule # rules) h =
     (case ruleMatches field rule h of
        (Inl err, h1) \<Rightarrow> (Inl err, h1)
      | (Inr found, h1) \<Rightarrow>
          if found then (Inr (Some (suggest rule)), h1) else bestMatch field rules h1)"





subsection \<open>Visual fallback\<close>

definition FORM_FIELD_SELECTORS :: "string list" where
  "FORM_FIELD_SELECTORS =
     [''input:not([type=\"hidden\"]):not([disabled])'',
      ''select:not([disabled])'',
      ''textarea:not([disabled])'',
      ''[contenteditable=\"true\"]'']"

text \<open>
  The snapshot is used through \<open>querySelectorAll\<close> alone: it is the function from a
  selector to the elements it selects, in document order.
\<close>

type_synonym snapshot = "string \<Rightarrow> element list"

record form_descriptor =
  form_node :: "element option"
  form_id :: string
  form_name :: string
  form_action :: string
  form_method :: string
  synthetic :: bool
  form_fields :: "field_descriptor list"

definition toLowerCase :: "string \<Rightarrow> string" where
  "toLowerCase s =
     map (\<lambda>c. let n = (of_char c :: nat) in if 65 \<le> n \<and> n \<le> 90 then char_of (n + 32) else c) s"

text \<open>The object built for each control of a cluster (lines 189-198).\<close>

definition controlField :: "element \<Rightarrow> field_descriptor" where
  "controlField el =
     \<lparr> fld_name = el_name (props el),
       fld_id = el_id (props el),
       fld_type = toLowerCase (if el_type (props el) \<noteq> [] then el_type (props el)
                               else tagName (props el)),
       fld_label = [],
       fld_placeholder = el_placeholder (props el),
       fld_required = el_required (props el),
       fld_autocomplete = el_autocomplete (props el),
       fld_node = el \<rparr>"

text \<open>
  \<open>controls.filter((el) => !isHidden(el) && !el.disabled)\<close>: the predicate runs on the
  controls in order and an exception of \<open>isHidden\<close> leaves the whole function.
\<close>

fun filterVisible :: "element list \<Rightarrow> js_error + element list" where
  "filterVisible [] = Inr []"
| "filterVisible (el # els) =
     (case isHidden el of
        Inl err \<Rightarrow> Inl err
      | Inr hid \<Rightarrow>
          (case filterVisible els of
             Inl err \<Rightarrow> Inl err
           | Inr rest \<Rightarrow> Inr (if \<not> hid \<and> \<not> el_disabled (props el) then el # rest else rest)))"

text \<open>
  The coordinates of a rectangle are doubles, here the real numbers they stand for. The
  order of two doubles is the order of these numbers, but their difference is rounded to a
  double again: \<open>fsub x y\<close> is the double that \<open>x - y\<close> evaluates to. It is a parameter of
  the model. Where the exact difference is a double, as for whole numbers of pixels, it is
  \<open>x - y\<close> itself.
\<close>

type_synonym float_sub = "real \<Rightarrow> real \<Rightarrow> real"

text \<open>
  The greedy pass (lines 169-185) over the sorted controls, with its three variables
  \<open>clusterForms\<close>, \<open>cluster\<close> and \<open>lastBottom\<close>; it returns the first two. The test is
  \<open>lastBottom === null || Math.abs(rect.top - lastBottom) < 60\<close>.
\<close>

fun clusterLoop ::
    "float_sub \<Rightarrow> element list \<Rightarrow> element list list \<Rightarrow> element list \<Rightarrow> real option \<Rightarrow>
     element list list \<times> element list" where
  "clusterLoop fsub [] clusterForms cluster lastBottom = (clusterForms, cluster)"
| "clusterLoop fsub (el # els) clusterForms cluster lastBottom =
     (if (case lastBottom of None \<Rightarrow> True
          | Some lb \<Rightarrow> \<bar>fsub (rect_top (props el)) lb\<bar> < 60)
      then clusterLoop fsub els clusterForms (cluster @ [el]) (Some (rect_bottom (props el)))
      else clusterLoop fsub els
             (if length cluster \<ge> 2 then clusterForms @ [cluster] else clusterForms)
             [el] (Some (rect_bottom (props el))))"

text \<open>The clusters kept after the pass, the last one flushed by line 186.\<close>

definition clustersOf :: "float_sub \<Rightarrow> element list \<Rightarrow> element list list" where
  "clustersOf fsub visibleControls =
     (case clusterLoop fsub visibleControls [] [] None of
        (clusterForms, cluster) \<Rightarrow>
          if length cluster \<ge> 2 then clusterForms @ [cluster] else clusterForms)"

text \<open>The descriptor of form-detection-engine.js (lines 199-207): empty id and name.\<close>

definition syntheticForm :: "nat \<times> element list \<Rightarrow> form_descriptor" where
  "syntheticForm ic =
     (case ic of (idx, clusterEls) \<Rightarrow>
        \<lparr> form_node = None, form_id = [], form_name = [], form_action = [],
          form_method = [], synthetic = True, form_fields = map controlField clusterEls \<rparr>)"

text \<open>
  \<open>fallbackVisualDetection\<close> of form-detection-engine.js. \<open>Array.prototype.sort\<close> is
  stable, and so is \<open>sort_key\<close>; the comparator is the difference of the \<open>top\<close>s, whose
  sign is that of the exact difference.
\<close>

definition fallbackVisualDetection ::
    "float_sub \<Rightarrow> snapshot \<Rightarrow> js_error + form_descriptor list" where
  "fallbackVisualDetection fsub domSnapshot =
     (case filterVisible (concat (map domSnapshot FORM_FIELD_SELECTORS)) of
        Inl err \<Rightarrow> Inl err
      | Inr visibleControls \<Rightarrow>
          if length visibleControls = 0 then Inr []
          else Inr (map syntheticForm
                     (enumerate 0
                        (clustersOf fsub (sort_key (\<lambda>el. rect_top (props el)) visibleControls)))))"

text \<open>
  The copy in the consolidated core (src/unnamed/part_003, lines 163-217) differs in the
  filter, which uses its own \<open>isHidden\<close>, and in the descriptor: id
  \<open>synthetic-form-${idx}\<close>, name \<open>syntheticForm${idx}\<close>, method \<open>POST\<close>.
\<close>

fun showNat :: "nat \<Rightarrow> string" where
  "showNat n =
     (if n < 10 then [''0123456789'' ! n] else showNat (n div 10) @ [''0123456789'' ! (n mod 10)])"

definition syntheticForm_core :: "nat \<times> element list \<Rightarrow> form_descriptor" where
  "syntheticForm_core ic =
     (case ic of (idx, clusterEls) \<Rightarrow>
        \<lparr> form_node = None, form_id = ''synthetic-form-'' @ showNat idx,
          form_name = ''syntheticForm'' @ showNat idx, form_action = [],
          form_method = ''POST'', synthetic = True, form_fields = map controlField clusterEls \<rparr>)"

fun filterVisible_core :: "element list \<Rightarrow> js_error + element list" where
  "filterVisible_core [] = Inr []"
| "filterVisible_core (el # els) =
     (case isHidden_core el of
        Inl err \<Rightarrow> Inl err
      | Inr hid \<Rightarrow>
          (case filterVisible_core els of
             Inl err \<Rightarrow> Inl err
           | Inr rest \<Rightarrow> Inr (if \<not> hid \<and> \<not> el_disabled (props el) then el # rest else rest)))"

definition fallbackVisualDetection_core ::
    "float_sub \<Rightarrow> snapshot \<Rightarrow> js_error + form_descriptor list" where
  "fallbackVisualDetection_core fsub domSnapshot =
     (case filterVisible_core (concat (map domSnapshot FORM_FIELD_SELECTORS)) of
        Inl err \<Rightarrow> Inl err
      | Inr visibleControls \<Rightarrow>
          if length visibleControls = 0 then Inr []
          else Inr (map syntheticForm_core
                     (enumerate 0
                        (clustersOf fsub (sort_key (\<lambda>el. rect_top (props el)) visibleControls)))))"

subsection \<open>Concrete fields and rules\<close>








text \<open>
  A page without a form element: two inputs close together, then two more further down.
  Only the first selector of \<open>FORM_FIELD_SELECTORS\<close> selects anything. All coordinates
  are whole numbers, so every difference among them is exact.
\<close>

definition fourInputs :: "element list" where
  "fourInputs =
     [Element (plainInput ''first'' 0 20) None, Element (plainInput ''last'' 30 50) None,
      Element (plainInput ''street'' 300 320) None, Element (plainInput ''city'' 330 350) None]"

definition twoGroups :: snapshot where
  "twoGroups sel = (if sel = ''input:not([type=\"hidden\"]):not([disabled])'' then fourInputs else [])"

section \<open>Batch processor (src/unnamed/part_000, lines 1-201)\<close>

subsection \<open>Data\<close>

text \<open>
  Batch identifiers are the strings \<open>uuidv4()\<close> returns; only their equality is used, so
  they are numbers here. Profiles, rows and batch configurations are opaque to the engine.
\<close>

type_synonym batch_id = nat
type_synonym profile = string
type_synonym row = string
type_synonym batch_config = string

datatype batch_status = Scheduled | Running | Completed | Failed

text \<open>The terminal states.\<close>

definition terminal :: "batch_status \<Rightarrow> bool" where
  "terminal s \<longleftrightarrow> s = Completed \<or> s = Failed"

record batch_progress =
  total :: nat
  processed :: nat
  failed :: nat
  succeeded :: nat

text \<open>What \<open>processForm\<close> resolves to: \<open>{ profile, row, status: 'success' }\<close>.\<close>

record submission =
  sub_profile :: profile
  sub_row :: row
  sub_status :: string

text \<open>
  \<open>{ row, profile, error, attempt }\<close>. \<open>attempt\<close> is read with \<open>failure.attempt || 1\<close>,
  so it may be absent.
\<close>

record failure_record =
  row :: row
  profile :: profile
  error :: string
  attempt :: "int option"

record batch_summary =
  sm_total :: nat
  sm_succeeded :: nat
  sm_failed :: nat
  completedAt :: int

record batch =
  b_id :: batch_id
  b_profile :: profile
  batchConfig :: batch_config
  inputRows :: "row list"
  status :: batch_status
  progress :: batch_progress
  createdAt :: int
  updatedAt :: int
  logs :: "string list"
  summary :: "batch_summary option"
  failures :: "failure_record list"
  retries :: "string list"

text \<open>
  \<open>fs.writeFileSync(file, data)\<close> opens the file with flag \<open>w\<close>, which creates or
  truncates it, writes the data and closes the file. It returns when all of this is done
  (\<open>Written\<close>). It throws without having touched the file when the file cannot be opened,
  or when \<open>JSON.stringify\<close> throws before it is called (\<open>Refused\<close>); it throws after
  the file has been truncated when the data cannot be written in full, which leaves an
  empty file or a proper prefix of the data (\<open>Torn\<close>); and it throws with all the data in
  the file when only closing the file fails (\<open>Unclosed\<close>).
\<close>

datatype write_outcome = Written | Refused | Torn | Unclosed

text \<open>
  batch-state.json: it does not exist, or it holds the entries that were written last, or
  it holds a text that \<open>JSON.parse\<close> rejects (no proper prefix of the text of an array is
  the text of a value).
\<close>

datatype state_file = Absent | Unparsable | Entries "(batch_id \<times> batch) list"

datatype event =
    BatchStarted batch_id
  | ProgressEvent batch_id batch_progress
  | BatchCompleted batch_id batch_summary
  | BatchFinalized batch_id "batch_summary option"

text \<open>
  What the engine takes from outside, each as the sequence of answers it will get:
  the identifiers \<open>uuidv4()\<close> returns, the readings of \<open>Date.now()\<close>, how each
  \<open>fs.writeFileSync\<close> of the state file ends, and the per-row capability
  \<open>processForm(profile, row)\<close>. The last one is a function of a state of the outside world
  (a number), which it advances; it either resolves to a submission or rejects with an
  error whose message is kept.
\<close>

record env =
  uuidv4 :: "nat \<Rightarrow> batch_id"
  dateNow :: "nat \<Rightarrow> int"
  writeFileSync :: "nat \<Rightarrow> write_outcome"
  processForm :: "nat \<Rightarrow> profile \<Rightarrow> row \<Rightarrow> (string + submission) \<times> nat"

text \<open>
  The module state: the \<open>batches\<close> map in insertion order, batch-state.json, the
  events emitted on \<open>batchEmitter\<close>, the lines written by \<open>console.error\<close> and
  \<open>console.warn\<close>, and how far each outside sequence has been consumed.
\<close>

record engine =
  batches :: "(batch_id \<times> batch) list"
  stateFile :: state_file
  emitted :: "event list"
  console :: "string list"
  uuidCalls :: nat
  clockReads :: nat
  writes :: nat
  world :: nat

subsection \<open>The Map\<close>

text \<open>
  \<open>Map.prototype.set\<close> keeps the position of a key that is present and appends a new
  key; \<open>Array.prototype.find\<close> and \<open>Map.prototype.get\<close> return the object itself,
  which the engine then mutates: the object is known by its position.
\<close>

definition mapSet :: "'k \<Rightarrow> 'v \<Rightarrow> ('k \<times> 'v) list \<Rightarrow> ('k \<times> 'v) list" where
  "mapSet k v m =
     (if k \<in> fst ` set m then map (\<lambda>kv. if fst kv = k then (k, v) else kv) m else m @ [(k, v)])"

fun findIndex :: "('a \<Rightarrow> bool) \<Rightarrow> 'a list \<Rightarrow> nat option" where
  "findIndex P [] = None"
| "findIndex P (x # xs) = (if P x then Some 0 else map_option Suc (findIndex P xs))"

definition mapGet :: "'k \<Rightarrow> ('k \<times> 'v) list \<Rightarrow> nat option" where
  "mapGet k m = findIndex (\<lambda>kv. fst kv = k) m"

definition batchAt :: "engine \<Rightarrow> nat \<Rightarrow> batch" where
  "batchAt st i = snd (batches st ! i)"

definition mutate :: "nat \<Rightarrow> (batch \<Rightarrow> batch) \<Rightarrow> engine \<Rightarrow> engine" where
  "mutate i f st =
     st \<lparr> batches := (batches st) [i := (fst (batches st ! i), f (snd (batches st ! i)))] \<rparr>"

text \<open>The readings of \<open>Date.now()\<close>: the next one, and the state after \<open>n\<close> of them.\<close>

definition now :: "env \<Rightarrow> engine \<Rightarrow> nat \<Rightarrow> int" where
  "now e st k = dateNow e (clockReads st + k)"

definition tick :: "nat \<Rightarrow> engine \<Rightarrow> engine" where
  "tick n st = st \<lparr> clockReads := clockReads st + n \<rparr>"

definition emit :: "event \<Rightarrow> engine \<Rightarrow> engine" where
  "emit ev st = st \<lparr> emitted := emitted st @ [ev] \<rparr>"

subsection \<open>Persistence\<close>

text \<open>
  \<open>persistBatchState\<close> (lines 10-16): the write is inside \<open>try\<close>, and the \<open>catch\<close>
  reports with \<open>console.error\<close> and returns normally, whatever the write has done to the
  file.
\<close>

definition persistBatchState :: "env \<Rightarrow> engine \<Rightarrow> engine" where
  "persistBatchState e st =
     (case writeFileSync e (writes st) of
        Written \<Rightarrow> st \<lparr> stateFile := Entries (batches st), writes := Suc (writes st) \<rparr>
      | Refused \<Rightarrow> st \<lparr> console := console st @ [''Failed to persist batch state:''],
                       writes := Suc (writes st) \<rparr>
      | Torn \<Rightarrow> st \<lparr> stateFile := Unparsable,
                    console := console st @ [''Failed to persist batch state:''],
                    writes := Suc (writes st) \<rparr>
      | Unclosed \<Rightarrow> st \<lparr> stateFile := Entries (batches st),
                        console := console st @ [''Failed to persist batch state:''],
                        writes := Suc (writes st) \<rparr>)"

text \<open>
  \<open>loadBatchState\<close> (lines 18-30), run once when the module is loaded: every entry of the
  file is \<open>set\<close> into the map. A file that cannot be parsed is reported with
  \<open>console.warn\<close> and the map stays as it is.
\<close>

definition loadBatchState :: "engine \<Rightarrow> engine" where
  "loadBatchState st =
     (case stateFile st of
        Absent \<Rightarrow> st
      | Unparsable \<Rightarrow> st \<lparr> console := console st @ [''Could not load batch state:''] \<rparr>
      | Entries entries \<Rightarrow>
          st \<lparr> batches := foldl (\<lambda>m kv. mapSet (fst kv) (snd kv) m) (batches st) entries \<rparr>)"

text \<open>The module just loaded, with no state file on disk.\<close>

definition startup :: engine where
  "startup = \<lparr> batches = [], stateFile = Absent, emitted = [], console = [],
               uuidCalls = 0, clockReads = 0, writes = 0, world = 0 \<rparr>"

text \<open>A new process started on the files an earlier one left.\<close>

definition restart :: "engine \<Rightarrow> engine" where
  "restart st = loadBatchState (st \<lparr> batches := [], emitted := [] \<rparr>)"

definition i18n :: "string \<Rightarrow> string" where
  "i18n key = key"

text \<open>
  \<open>logBatchEvent\<close> (lines 172-184) appends a line to batch-processor.log inside a
  \<open>try\<close> whose \<open>catch\<close> is empty. Nothing reads that file back, and it is not part of the
  state here.
\<close>

subsection \<open>scheduleBatchRun\<close>

definition zeroProgress :: batch_progress where
  "zeroProgress = \<lparr> total = 0, processed = 0, failed = 0, succeeded = 0 \<rparr>"

definition newBatch :: "env \<Rightarrow> engine \<Rightarrow> batch_id \<Rightarrow> profile \<Rightarrow> batch_config \<Rightarrow> batch" where
  "newBatch e st batchId prof cfg =
     \<lparr> b_id = batchId, b_profile = prof, batchConfig = cfg, inputRows = [],
       status = Scheduled, progress = zeroProgress,
       createdAt = now e st 0, updatedAt = now e st 1,
       logs = [], summary = None, failures = [], retries = [] \<rparr>"

definition scheduleBatchRun :: "env \<Rightarrow> profile \<Rightarrow> batch_config \<Rightarrow> engine \<Rightarrow> batch_id \<times> engine" where
  "scheduleBatchRun e prof cfg st =
     (let batchId = uuidv4 e (uuidCalls st);
          b = newBatch e st batchId prof cfg;
          st1 = tick 2 (st \<lparr> uuidCalls := Suc (uuidCalls st) \<rparr>);
          st2 = st1 \<lparr> batches := mapSet batchId b (batches st1) \<rparr>
      in (batchId, persistBatchState e st2))"

subsection \<open>executeBatch\<close>

text \<open>
  \<open>[...batches.values()].find(b => b.profile === profile && b.status === 'scheduled')\<close>:
  the first such batch in the insertion order of the map.
\<close>

definition findScheduled :: "profile \<Rightarrow> (batch_id \<times> batch) list \<Rightarrow> nat option" where
  "findScheduled prof m =
     findIndex (\<lambda>kv. b_profile (snd kv) = prof \<and> status (snd kv) = Scheduled) m"

text \<open>Lines 66-73: the batch starts.\<close>

definition beginBatch :: "env \<Rightarrow> nat \<Rightarrow> row list \<Rightarrow> engine \<Rightarrow> engine" where
  "beginBatch e i rows st =
     (let st1 = mutate i (\<lambda>b. b \<lparr> inputRows := rows,
                                   progress := (progress b) \<lparr> total := length rows \<rparr>,
                                   status := Running,
                                   updatedAt := now e st 0 \<rparr>) st;
          st2 = persistBatchState e (tick 1 st1)
      in emit (BatchStarted (b_id (batchAt st2 i))) st2)"

text \<open>Lines 87-90, after either branch of the \<open>try\<close>.\<close>

definition rowDone :: "env \<Rightarrow> nat \<Rightarrow> engine \<Rightarrow> engine" where
  "rowDone e i st =
     (let st1 = mutate i (\<lambda>b. b \<lparr> progress := (progress b) \<lparr> processed := processed (progress b) + 1 \<rparr>,
                                   updatedAt := now e st 0 \<rparr>) st;
          st2 = persistBatchState e (tick 1 st1)
      in emit (ProgressEvent (b_id (batchAt st2 i)) (progress (batchAt st2 i))) st2)"

text \<open>
  One round of the \<open>for\<close> loop (lines 76-91) on the local arrays \<open>results\<close> and
  \<open>failures\<close> and the module state.
\<close>

definition processRow ::
    "env \<Rightarrow> nat \<Rightarrow> submission list \<times> failure_record list \<times> engine \<Rightarrow> row \<Rightarrow>
     submission list \<times> failure_record list \<times> engine" where
  "processRow e i acc r =
     (case acc of (res, fails, st) \<Rightarrow>
        (case processForm e (world st) (b_profile (batchAt st i)) r of
           (Inr result, w) \<Rightarrow>
             (res @ [result], fails,
              rowDone e i
                (mutate i (\<lambda>b. b \<lparr> progress := (progress b) \<lparr> succeeded := succeeded (progress b) + 1 \<rparr> \<rparr>)
                   (st \<lparr> world := w \<rparr>)))
         | (Inl message, w) \<Rightarrow>
             (res,
              fails @ [\<lparr> row = r, profile = b_profile (batchAt st i), error = message,
                         attempt = Some 1 \<rparr>],
              rowDone e i
                (mutate i (\<lambda>b. b \<lparr> progress := (progress b) \<lparr> failed := failed (progress b) + 1 \<rparr> \<rparr>)
                   (st \<lparr> world := w \<rparr>)))))"

definition processRows ::
    "env \<Rightarrow> nat \<Rightarrow> row list \<Rightarrow> engine \<Rightarrow> submission list \<times> failure_record list \<times> engine" where
  "processRows e i rows st = foldl (processRow e i) ([], [], st) rows"

text \<open>Lines 92-103: the batch ends.\<close>

definition finishBatch :: "env \<Rightarrow> nat \<Rightarrow> row list \<Rightarrow> failure_record list \<Rightarrow> engine \<Rightarrow> engine" where
  "finishBatch e i rows fails st =
     (let sm = \<lparr> sm_total = length rows,
                 sm_succeeded = succeeded (progress (batchAt st i)),
                 sm_failed = failed (progress (batchAt st i)),
                 completedAt = now e st 1 \<rparr>;
          st1 = mutate i (\<lambda>b. b \<lparr> failures := fails,
                                   status := (if length fails = 0 then Completed else Failed),
                                   updatedAt := now e st 0,
                                   summary := Some sm \<rparr>) st;
          st2 = persistBatchState e (tick 2 st1)
      in emit (BatchCompleted (b_id (batchAt st2 i)) sm) st2)"

record exec_result =
  batchId :: batch_id
  results :: "submission list"
  exec_failures :: "failure_record list"

text \<open>
  \<open>executeBatch\<close> (lines 59-105). The function is \<open>async\<close>: its \<open>throw\<close> rejects the
  promise it returns, which is the \<open>Inl\<close> result here.
\<close>

definition executeBatch ::
    "env \<Rightarrow> profile \<Rightarrow> row list \<Rightarrow> engine \<Rightarrow> (string + exec_result) \<times> engine" where
  "executeBatch e prof rows st =
     (case findScheduled prof (batches st) of
        None \<Rightarrow> (Inl (i18n ''No scheduled batch for this profile.''), st)
      | Some i \<Rightarrow>
          (case processRows e i rows (beginBatch e i rows st) of
             (res, fails, st1) \<Rightarrow>
               (let st2 = finishBatch e i rows fails st1
                in (Inr \<lparr> batchId = b_id (batchAt st2 i), results = res,
                          exec_failures = failures (batchAt st2 i) \<rparr>, st2))))"

subsection \<open>retryFailedSubmissions\<close>

record retry_policy =
  maxAttempts :: "int option"
  retryDelayMs :: "int option"

text \<open>\<open>x || d\<close> on a number that may be absent: \<open>undefined\<close> and \<open>0\<close> give \<open>d\<close>.\<close>

definition orDefault :: "int option \<Rightarrow> int \<Rightarrow> int" where
  "orDefault x d = (case x of None \<Rightarrow> d | Some v \<Rightarrow> if v = 0 then d else v)"

text \<open>
  The \<open>while (attempt <= maxAttempts && !succeeded)\<close> loop (lines 116-132) for one failure
  record, from the current \<open>attempt\<close> and \<open>lastError\<close>. It returns the result when an attempt
  succeeded, the final \<open>attempt\<close> and \<open>lastError\<close>, and the state of the outside world. The
  delay before each attempt takes time and nothing else.
\<close>

function retryLoop ::
    "env \<Rightarrow> int \<Rightarrow> failure_record \<Rightarrow> int \<Rightarrow> string \<Rightarrow> nat \<Rightarrow>
     submission option \<times> int \<times> string \<times> nat" where
  "retryLoop e maxA failure att lastError w =
     (if att \<le> maxA
      then (case processForm e w (profile failure) (row failure) of
              (Inr result, w1) \<Rightarrow> (Some result, att, lastError, w1)
            | (Inl message, w1) \<Rightarrow> retryLoop e maxA failure (att + 1) message w1)
      else (None, att, lastError, w))"
  by pat_completeness auto
termination
  by (relation "measure (\<lambda>(e, maxA, failure, att, lastError, w). nat (maxA + 1 - att))") auto

declare retryLoop.simps [simp del]

text \<open>One round of the \<open>for (const failure of failures)\<close> loop (lines 112-136).\<close>

definition retryOne ::
    "env \<Rightarrow> int \<Rightarrow> submission list \<times> failure_record list \<times> nat \<Rightarrow> failure_record \<Rightarrow>
     submission list \<times> failure_record list \<times> nat" where
  "retryOne e maxA acc failure =
     (case acc of (finalResults, newFailures, w) \<Rightarrow>
        (case retryLoop e maxA failure (orDefault (attempt failure) 1) (error failure) w of
           (Some result, att, lastError, w1) \<Rightarrow> (finalResults @ [result], newFailures, w1)
         | (None, att, lastError, w1) \<Rightarrow>
             (finalResults,
              newFailures @ [failure \<lparr> error := lastError, attempt := Some att \<rparr>], w1)))"

record retry_result =
  retry_succeeded :: "submission list"
  retry_failures :: "failure_record list"

definition retryFailedSubmissions ::
    "env \<Rightarrow> failure_record list \<Rightarrow> retry_policy \<Rightarrow> engine \<Rightarrow> retry_result \<times> engine" where
  "retryFailedSubmissions e fails retryPolicy st =
     (case foldl (retryOne e (orDefault (maxAttempts retryPolicy) 3)) ([], [], world st) fails of
        (finalResults, newFailures, w) \<Rightarrow>
          (\<lparr> retry_succeeded = finalResults, retry_failures = newFailures \<rparr>, st \<lparr> world := w \<rparr>))"

subsection \<open>trackBatchProgress and handleBatchCompletion\<close>

definition trackBatchProgress :: "batch_id \<Rightarrow> engine \<Rightarrow> batch_progress option" where
  "trackBatchProgress bid st = map_option (\<lambda>i. progress (batchAt st i)) (mapGet bid (batches st))"

definition handleBatchCompletion ::
    "env \<Rightarrow> batch_id \<Rightarrow> batch_summary option \<Rightarrow> engine \<Rightarrow> engine" where
  "handleBatchCompletion e bid sm st =
     (case mapGet bid (batches st) of
        None \<Rightarrow> st
      | Some i \<Rightarrow>
          (let st1 = mutate i (\<lambda>b. b \<lparr> status := Completed, summary := sm,
                                        updatedAt := now e st 0 \<rparr>) st
           in emit (BatchFinalized bid sm) (persistBatchState e (tick 1 st1))))"

subsection \<open>The placeholder processor\<close>

text \<open>
  \<open>processForm\<close> as the repository has it (lines 157-165) draws \<open>Math.random()\<close>: below
  0.9 it draws once more for its delay and resolves, otherwise it throws. The state of the
  outside world is the number of draws made, \<open>rnd\<close> the sequence of values drawn.
\<close>

definition simulatedProcessForm ::
    "(nat \<Rightarrow> real) \<Rightarrow> nat \<Rightarrow> profile \<Rightarrow> row \<Rightarrow> (string + submission) \<times> nat" where
  "simulatedProcessForm rnd w prof r =
     (if rnd w < 9 / 10
      then (Inr \<lparr> sub_profile = prof, sub_row = r, sub_status = ''success'' \<rparr>, w + 2)
      else (Inl (i18n ''Simulated form submission error''), w + 1))"

subsection \<open>Sequences of calls\<close>

datatype call =
    ScheduleBatchRun profile batch_config
  | ExecuteBatch profile "row list"
  | RetryFailedSubmissions "failure_record list" retry_policy
  | TrackBatchProgress batch_id
  | HandleBatchCompletion batch_id "batch_summary option"

datatype outcome =
    Rejected string
  | ReturnedId batch_id
  | Executed exec_result
  | Retried retry_result
  | ProgressCopy "batch_progress option"
  | ReturnedNothing

fun perform :: "env \<Rightarrow> call \<Rightarrow> engine \<Rightarrow> outcome \<times> engine" where
  "perform e (ScheduleBatchRun prof cfg) st =
     (case scheduleBatchRun e prof cfg st of (bid, st1) \<Rightarrow> (ReturnedId bid, st1))"
| "perform e (ExecuteBatch prof rows) st =
     (case executeBatch e prof rows st of
        (Inl message, st1) \<Rightarrow> (Rejected message, st1)
      | (Inr res, st1) \<Rightarrow> (Executed res, st1))"
| "perform e (RetryFailedSubmissions fails pol) st =
     (case retryFailedSubmissions e fails pol st of (res, st1) \<Rightarrow> (Retried res, st1))"
| "perform e (TrackBatchProgress bid) st = (ProgressCopy (trackBatchProgress bid st), st)"
| "perform e (HandleBatchCompletion bid sm) st = (ReturnedNothing, handleBatchCompletion e bid sm st)"

text \<open>The calls of a list one after the other: what each returned, and the final state.\<close>

fun run :: "env \<Rightarrow> call list \<Rightarrow> engine \<Rightarrow> outcome list \<times> engine" where
  "run e [] st = ([], st)"
| "run e (c # cs) st =
     (case perform e c st of (out, st1) \<Rightarrow>
        (case run e cs st1 of (outs, st2) \<Rightarrow> (out # outs, st2)))"

subsection \<open>Calls that overlap\<close>

text \<open>
  \<open>executeBatch\<close> is \<open>async\<close>: it runs from its call to line 79, where it calls
  \<open>processForm\<close> for the first row and waits for it; each time the awaited promise
  settles it runs on from there to the \<open>await\<close> of the next row, or, after the last row,
  to its end. With no row at all it runs to its end at once. Between two of these stretches
  any other call may run, and read and change \<open>batches\<close>. A call that waits is kept as
  a task: the position of its \<open>batchEntry\<close>, its \<open>inputRows\<close>, the rows it has not
  processed yet (it waits for the first of them), and its arrays \<open>results\<close> and
  \<open>failures\<close>. The exchange with the processor for a row is placed at the moment at
  which it settles.
\<close>

record exec_task =
  t_index :: nat
  t_inputRows :: "row list"
  t_pending :: "row list"
  t_results :: "submission list"
  t_failures :: "failure_record list"

text \<open>
  \<open>retryFailedSubmissions\<close> is \<open>async\<close> as well and waits at lines 118 and 119, for the
  delay and then for \<open>processForm\<close>. A call that waits is kept with its variables:
  \<open>maxAttempts\<close>, the failure record it is at with \<open>attempt\<close> and \<open>lastError\<close>, the
  records after that one, and \<open>finalResults\<close> and \<open>newFailures\<close>.
\<close>

record retry_task =
  r_maxAttempts :: int
  r_failure :: failure_record
  r_attempt :: int
  r_lastError :: string
  r_rest :: "failure_record list"
  r_finalResults :: "submission list"
  r_newFailures :: "failure_record list"

text \<open>
  The \<open>for\<close> loop of \<open>retryFailedSubmissions\<close> from the top of a round (line 112) to
  the next \<open>await\<close> or to the \<open>return\<close>: a record that has no attempt left goes to
  \<open>newFailures\<close> at once.
\<close>

fun retryEnter ::
    "int \<Rightarrow> failure_record list \<Rightarrow> submission list \<Rightarrow> failure_record list \<Rightarrow>
     retry_result + retry_task" where
  "retryEnter maxA [] finalResults newFailures =
     Inl \<lparr> retry_succeeded = finalResults, retry_failures = newFailures \<rparr>"
| "retryEnter maxA (failure # rest) finalResults newFailures =
     (if orDefault (attempt failure) 1 \<le> maxA
      then Inr \<lparr> r_maxAttempts = maxA, r_failure = failure,
                 r_attempt = orDefault (attempt failure) 1, r_lastError = error failure,
                 r_rest = rest, r_finalResults = finalResults, r_newFailures = newFailures \<rparr>
      else retryEnter maxA rest finalResults
             (newFailures @ [failure \<lparr> error := error failure,
                                       attempt := Some (orDefault (attempt failure) 1) \<rparr>]))"

text \<open>
  A process: the module state, the calls of \<open>executeBatch\<close> and of
  \<open>retryFailedSubmissions\<close> that wait, and the values with which calls of these two
  functions have returned so far.
\<close>

record process =
  eng :: engine
  tasks :: "exec_task list"
  retryTasks :: "retry_task list"
  settled :: "outcome list"

text \<open>
  What happens next: a function of the module is called; the \<open>processForm\<close> that the
  \<open>k\<close>-th waiting call of \<open>executeBatch\<close>, or of \<open>retryFailedSubmissions\<close>, waits for
  settles; or the process ends and a new one is started on the files it leaves.
\<close>

datatype step = Call call | Resume nat | ResumeRetry nat | Restart

text \<open>
  Lines 59-79 for \<open>executeBatch\<close> and lines 108-118 for \<open>retryFailedSubmissions\<close>; the
  other three functions run to their end.
\<close>

definition callStep :: "env \<Rightarrow> call \<Rightarrow> process \<Rightarrow> process" where
  "callStep e c s =
     (case c of
        ExecuteBatch prof rows \<Rightarrow>
          (case findScheduled prof (batches (eng s)) of
             None \<Rightarrow> s \<lparr> settled := settled s @ [Rejected (i18n ''No scheduled batch for this profile.'')] \<rparr>
           | Some i \<Rightarrow>
               (let st1 = beginBatch e i rows (eng s)
                in if rows = []
                   then (let st2 = finishBatch e i rows [] st1
                         in s \<lparr> eng := st2,
                                settled := settled s @
                                  [Executed \<lparr> batchId = b_id (batchAt st2 i), results = [],
                                              exec_failures = failures (batchAt st2 i) \<rparr>] \<rparr>)
                   else s \<lparr> eng := st1,
                           tasks := tasks s @
                             [\<lparr> t_index = i, t_inputRows = rows, t_pending = rows,
                                t_results = [], t_failures = [] \<rparr>] \<rparr>))
      | RetryFailedSubmissions fails retryPolicy \<Rightarrow>
          (case retryEnter (orDefault (maxAttempts retryPolicy) 3) fails [] [] of
             Inl res \<Rightarrow> s \<lparr> settled := settled s @ [Retried res] \<rparr>
           | Inr t \<Rightarrow> s \<lparr> retryTasks := retryTasks s @ [t] \<rparr>)
      | _ \<Rightarrow> s \<lparr> eng := snd (perform e c (eng s)) \<rparr>)"

text \<open>
  Lines 79-91 for the row a task waits for, and then either the \<open>await\<close> of the next row or
  lines 92-104. A task that has returned is no longer kept.
\<close>

definition resumeStep :: "env \<Rightarrow> nat \<Rightarrow> process \<Rightarrow> process" where
  "resumeStep e k s =
     (if k < length (tasks s)
      then (let t = tasks s ! k
            in case t_pending t of
                 [] \<Rightarrow> s
               | r # rest \<Rightarrow>
                   (case processRow e (t_index t) (t_results t, t_failures t, eng s) r of
                      (res, fails, st1) \<Rightarrow>
                        if rest = []
                        then (let st2 = finishBatch e (t_index t) (t_inputRows t) fails st1
                              in s \<lparr> eng := st2,
                                     tasks := take k (tasks s) @ drop (Suc k) (tasks s),
                                     settled := settled s @
                                       [Executed \<lparr> batchId = b_id (batchAt st2 (t_index t)), results = res,
                                                   exec_failures = failures (batchAt st2 (t_index t)) \<rparr>] \<rparr>)
                        else s \<lparr> eng := st1,
                                tasks := (tasks s)
                                  [k := t \<lparr> t_pending := rest, t_results := res, t_failures := fails \<rparr>] \<rparr>))
      else s)"

text \<open>
  Lines 119-135 for the attempt a retry waits for: a result ends the record, a rejection
  counts the attempt; then the loops run on to the next \<open>await\<close> or to the \<open>return\<close>.
\<close>

definition retryStep :: "env \<Rightarrow> nat \<Rightarrow> process \<Rightarrow> process" where
  "retryStep e k s =
     (if k < length (retryTasks s)
      then (let t = retryTasks s ! k
            in case processForm e (world (eng s)) (profile (r_failure t)) (row (r_failure t)) of
                 (tried, w) \<Rightarrow>
                   (case (case tried of
                            Inr result \<Rightarrow>
                              retryEnter (r_maxAttempts t) (r_rest t)
                                (r_finalResults t @ [result]) (r_newFailures t)
                          | Inl message \<Rightarrow>
                              if r_attempt t + 1 \<le> r_maxAttempts t
                              then Inr (t \<lparr> r_attempt := r_attempt t + 1, r_lastError := message \<rparr>)
                              else retryEnter (r_maxAttempts t) (r_rest t) (r_finalResults t)
                                     (r_newFailures t @
                                        [(r_failure t) \<lparr> error := message,
                                                          attempt := Some (r_attempt t + 1) \<rparr>])) of
                      Inl res \<Rightarrow>
                        s \<lparr> eng := (eng s) \<lparr> world := w \<rparr>,
                            retryTasks := take k (retryTasks s) @ drop (Suc k) (retryTasks s),
                            settled := settled s @ [Retried res] \<rparr>
                    | Inr t1 \<Rightarrow>
                        s \<lparr> eng := (eng s) \<lparr> world := w \<rparr>, retryTasks := (retryTasks s) [k := t1] \<rparr>))
      else s)"

text \<open>The new process loads the module; the calls that were waiting are gone.\<close>

definition restartStep :: "process \<Rightarrow> process" where
  "restartStep s = \<lparr> eng = restart (eng s), tasks = [], retryTasks = [], settled = [] \<rparr>"

fun advance :: "env \<Rightarrow> step \<Rightarrow> process \<Rightarrow> process" where
  "advance e (Call c) s = callStep e c s"
| "advance e (Resume k) s = resumeStep e k s"
| "advance e (ResumeRetry k) s = retryStep e k s"
| "advance e Restart s = restartStep s"

text \<open>
  The first process, just started with no state file on disk, and what it has become after
  some steps.
\<close>

definition boot :: process where
  "boot = \<lparr> eng = startup, tasks = [], retryTasks = [], settled = [] \<rparr>"

definition reached :: "env \<Rightarrow> step list \<Rightarrow> process" where
  "reached e steps = foldl (\<lambda>s x. advance e x s) boot steps"

section \<open>The batch processor of the consolidated core (src/unnamed/part_003, lines 656-842)\<close>

text \<open>
  The second copy of the engine, translated from its own text. It has its own \<open>batches\<close>
  map and its own state file, so it runs on an \<open>engine\<close> of its own; the per-row capability
  is there called \<open>processFormForBatch\<close> and the translation function
  \<open>batchProcessorI18n\<close>.
\<close>

definition persistBatchState_core :: "env \<Rightarrow> engine \<Rightarrow> engine" where
  "persistBatchState_core e st =
     (case writeFileSync e (writes st) of
        Written \<Rightarrow> st \<lparr> stateFile := Entries (batches st), writes := Suc (writes st) \<rparr>
      | Refused \<Rightarrow> st \<lparr> console := console st @ [''Failed to persist batch state:''],
                       writes := Suc (writes st) \<rparr>
      | Torn \<Rightarrow> st \<lparr> stateFile := Unparsable,
                    console := console st @ [''Failed to persist batch state:''],
                    writes := Suc (writes st) \<rparr>
      | Unclosed \<Rightarrow> st \<lparr> stateFile := Entries (batches st),
                        console := console st @ [''Failed to persist batch state:''],
                        writes := Suc (writes st) \<rparr>)"

definition loadBatchState_core :: "engine \<Rightarrow> engine" where
  "loadBatchState_core st =
     (case stateFile st of
        Absent \<Rightarrow> st
      | Unparsable \<Rightarrow> st \<lparr> console := console st @ [''Could not load batch state:''] \<rparr>
      | Entries entries \<Rightarrow>
          st \<lparr> batches := foldl (\<lambda>m kv. mapSet (fst kv) (snd kv) m) (batches st) entries \<rparr>)"

definition batchProcessorI18n :: "string \<Rightarrow> string" where
  "batchProcessorI18n key = key"

definition scheduleBatchRun_core ::
    "env \<Rightarrow> profile \<Rightarrow> batch_config \<Rightarrow> engine \<Rightarrow> batch_id \<times> engine" where
  "scheduleBatchRun_core e prof cfg st =
     (let bid = uuidv4 e (uuidCalls st);
          b = \<lparr> b_id = bid, b_profile = prof, batchConfig = cfg, inputRows = [],
                status = Scheduled,
                progress = \<lparr> total = 0, processed = 0, failed = 0, succeeded = 0 \<rparr>,
                createdAt = now e st 0, updatedAt = now e st 1,
                logs = [], summary = None, failures = [], retries = [] \<rparr>;
          st1 = tick 2 (st \<lparr> uuidCalls := Suc (uuidCalls st) \<rparr>);
          st2 = st1 \<lparr> batches := mapSet bid b (batches st1) \<rparr>
      in (bid, persistBatchState_core e st2))"

definition processRow_core ::
    "env \<Rightarrow> nat \<Rightarrow> submission list \<times> failure_record list \<times> engine \<Rightarrow> row \<Rightarrow>
     submission list \<times> failure_record list \<times> engine" where
  "processRow_core e i acc r =
     (case acc of (res, fails, st) \<Rightarrow>
        (let tried =
               (case processForm e (world st) (b_profile (batchAt st i)) r of
                  (Inr result, w) \<Rightarrow>
                    (res @ [result], fails,
                     mutate i (\<lambda>b. b \<lparr> progress := (progress b) \<lparr> succeeded := succeeded (progress b) + 1 \<rparr> \<rparr>)
                       (st \<lparr> world := w \<rparr>))
                | (Inl message, w) \<Rightarrow>
                    (res,
                     fails @ [\<lparr> row = r, profile = b_profile (batchAt st i), error = message,
                                attempt = Some 1 \<rparr>],
                     mutate i (\<lambda>b. b \<lparr> progress := (progress b) \<lparr> failed := failed (progress b) + 1 \<rparr> \<rparr>)
                       (st \<lparr> world := w \<rparr>)))
         in case tried of (res1, fails1, st1) \<Rightarrow>
              (let st2 = mutate i (\<lambda>b. b \<lparr> progress := (progress b) \<lparr> processed := processed (progress b) + 1 \<rparr>,
                                            updatedAt := now e st1 0 \<rparr>) st1;
                   st3 = persistBatchState_core e (tick 1 st2)
               in (res1, fails1,
                   emit (ProgressEvent (b_id (batchAt st3 i)) (progress (batchAt st3 i))) st3))))"

definition executeBatch_core ::
    "env \<Rightarrow> profile \<Rightarrow> row list \<Rightarrow> engine \<Rightarrow> (string + exec_result) \<times> engine" where
  "executeBatch_core e prof rows st =
     (case findIndex (\<lambda>kv. b_profile (snd kv) = prof \<and> status (snd kv) = Scheduled) (batches st) of
        None \<Rightarrow> (Inl (batchProcessorI18n ''No scheduled batch for this profile.''), st)
      | Some i \<Rightarrow>
          (let st1 = mutate i (\<lambda>b. b \<lparr> inputRows := rows,
                                        progress := (progress b) \<lparr> total := length rows \<rparr>,
                                        status := Running,
                                        updatedAt := now e st 0 \<rparr>) st;
               st2 = persistBatchState_core e (tick 1 st1);
               st3 = emit (BatchStarted (b_id (batchAt st2 i))) st2
           in case foldl (processRow_core e i) ([], [], st3) rows of
                (res, fails, st4) \<Rightarrow>
                  (let sm = \<lparr> sm_total = length rows,
                              sm_succeeded = succeeded (progress (batchAt st4 i)),
                              sm_failed = failed (progress (batchAt st4 i)),
                              completedAt = now e st4 1 \<rparr>;
                       st5 = mutate i (\<lambda>b. b \<lparr> failures := fails,
                                                status := (if length fails = 0 then Completed else Failed),
                                                updatedAt := now e st4 0,
                                                summary := Some sm \<rparr>) st4;
                       st6 = persistBatchState_core e (tick 2 st5);
                       st7 = emit (BatchCompleted (b_id (batchAt st6 i)) sm) st6
                   in (Inr \<lparr> batchId = b_id (batchAt st7 i), results = res,
                             exec_failures = failures (batchAt st7 i) \<rparr>, st7))))"

function retryLoop_core ::
    "env \<Rightarrow> int \<Rightarrow> failure_record \<Rightarrow> int \<Rightarrow> string \<Rightarrow> nat \<Rightarrow>
     submission option \<times> int \<times> string \<times> nat" where
  "retryLoop_core e maxA failure att lastError w =
     (if att \<le> maxA
      then (case processForm e w (profile failure) (row failure) of
              (Inr result, w1) \<Rightarrow> (Some result, att, lastError, w1)
            | (Inl message, w1) \<Rightarrow> retryLoop_core e maxA failure (att + 1) message w1)
      else (None, att, lastError, w))"
  by pat_completeness auto
termination
  by (relation "measure (\<lambda>(e, maxA, failure, att, lastError, w). nat (maxA + 1 - att))") auto

declare retryLoop_core.simps [simp del]

definition retryFailedSubmissions_core ::
    "env \<Rightarrow> failure_record list \<Rightarrow> retry_policy \<Rightarrow> engine \<Rightarrow> retry_result \<times> engine" where
  "retryFailedSubmissions_core e fails retryPolicy st =
     (case foldl
             (\<lambda>acc failure.
                case acc of (finalResults, newFailures, w) \<Rightarrow>
                  (case retryLoop_core e (orDefault (maxAttempts retryPolicy) 3) failure
                          (orDefault (attempt failure) 1) (error failure) w of
                     (Some result, att, lastError, w1) \<Rightarrow> (finalResults @ [result], newFailures, w1)
                   | (None, att, lastError, w1) \<Rightarrow>
                       (finalResults,
                        newFailures @ [failure \<lparr> error := lastError, attempt := Some att \<rparr>], w1)))
             ([], [], world st) fails of
        (finalResults, newFailures, w) \<Rightarrow>
          (\<lparr> retry_succeeded = finalResults, retry_failures = newFailures \<rparr>, st \<lparr> world := w \<rparr>))"

definition trackBatchProgress_core :: "batch_id \<Rightarrow> engine \<Rightarrow> batch_progress option" where
  "trackBatchProgress_core bid st =
     (case findIndex (\<lambda>kv. fst kv = bid) (batches st) of
        None \<Rightarrow> None
      | Some i \<Rightarrow> Some (progress (batchAt st i)))"

definition handleBatchCompletion_core ::
    "env \<Rightarrow> batch_id \<Rightarrow> batch_summary option \<Rightarrow> engine \<Rightarrow> engine" where
  "handleBatchCompletion_core e bid sm st =
     (case findIndex (\<lambda>kv. fst kv = bid) (batches st) of
        None \<Rightarrow> st
      | Some i \<Rightarrow>
          (let st1 = mutate i (\<lambda>b. b \<lparr> status := Completed, summary := sm,
                                        updatedAt := now e st 0 \<rparr>) st;
               st2 = persistBatchState_core e (tick 1 st1)
           in emit (BatchFinalized bid sm) st2))"

definition simulatedProcessFormForBatch ::
    "(nat \<Rightarrow> real) \<Rightarrow> nat \<Rightarrow> profile \<Rightarrow> row \<Rightarrow> (string + submission) \<times> nat" where
  "simulatedProcessFormForBatch rnd w prof r =
     (if rnd w < 9 / 10
      then (Inr \<lparr> sub_profile = prof, sub_row = r, sub_status = ''success'' \<rparr>, w + 2)
      else (Inl (batchProcessorI18n ''Simulated form submission error''), w + 1))"

fun perform_core :: "env \<Rightarrow> call \<Rightarrow> engine \<Rightarrow> outcome \<times> engine" where
  "perform_core e (ScheduleBatchRun prof cfg) st =
     (case scheduleBatchRun_core e prof cfg st of (bid, st1) \<Rightarrow> (ReturnedId bid, st1))"
| "perform_core e (ExecuteBatch prof rows) st =
     (case executeBatch_core e prof rows st of
        (Inl message, st1) \<Rightarrow> (Rejected message, st1)
      | (Inr res, st1) \<Rightarrow> (Executed res, st1))"
| "perform_core e (RetryFailedSubmissions fails pol) st =
     (case retryFailedSubmissions_core e fails pol st of (res, st1) \<Rightarrow> (Retried res, st1))"
| "perform_core e (TrackBatchProgress bid) st = (ProgressCopy (trackBatchProgress_core bid st), st)"
| "perform_core e (HandleBatchCompletion bid sm) st =
     (ReturnedNothing, handleBatchCompletion_core e bid sm st)"

fun run_core :: "env \<Rightarrow> call list \<Rightarrow> engine \<Rightarrow> outcome list \<times> engine" where
  "run_core e [] st = ([], st)"
| "run_core e (c # cs) st =
     (case perform_core e c st of (out, st1) \<Rightarrow>
        (case run_core e cs st1 of (outs, st2) \<Rightarrow> (out # outs, st2)))"

section \<open>Invariants of the batch processor\<close>

text \<open>Two batches that differ at most in their counters and their \<open>updatedAt\<close>.\<close>

definition sameBatch :: "batch \<Rightarrow> batch \<Rightarrow> bool" where
  "sameBatch b c \<longleftrightarrow>
     b_id b = b_id c \<and> b_profile b = b_profile c \<and> batchConfig b = batchConfig c \<and>
     inputRows b = inputRows c \<and> status b = status c \<and> createdAt b = createdAt c \<and>
     logs b = logs c \<and> summary b = summary c \<and> failures b = failures c \<and>
     retries b = retries c \<and> total (progress b) = total (progress c)"

text \<open>The counters \<open>q\<close> are the counters \<open>p\<close> after \<open>a\<close> successes and \<open>b\<close> failures.\<close>

definition advancedBy :: "batch_progress \<Rightarrow> nat \<Rightarrow> nat \<Rightarrow> batch_progress \<Rightarrow> bool" where
  "advancedBy p a b q \<longleftrightarrow>
     total q = total p \<and> processed q = processed p + a + b \<and>
     succeeded q = succeeded p + a \<and> failed q = failed p + b"

text \<open>
  The invariant of the \<open>for\<close> loop of \<open>executeBatch\<close> on the batch at position \<open>i\<close>,
  relative to the state \<open>st0\<close> in which the loop started.
\<close>

definition rowsDone ::
    "nat \<Rightarrow> engine \<Rightarrow> submission list \<times> failure_record list \<times> engine \<Rightarrow> bool" where
  "rowsDone i st0 acc \<longleftrightarrow>
     (case acc of (res, fails, st) \<Rightarrow>
        length (batches st) = length (batches st0) \<and>
        (\<forall>j. j \<noteq> i \<longrightarrow> batches st ! j = batches st0 ! j) \<and>
        fst (batches st ! i) = fst (batches st0 ! i) \<and>
        sameBatch (batchAt st i) (batchAt st0 i) \<and>
        advancedBy (progress (batchAt st0 i)) (length res) (length fails) (progress (batchAt st i)) \<and>
        uuidCalls st = uuidCalls st0 \<and>
        (\<exists>evs. emitted st = emitted st0 @ evs \<and> length evs = length res + length fails \<and>
           (\<forall>ev \<in> set evs. \<exists>a b q. a + b \<le> length res + length fails \<and>
               advancedBy (progress (batchAt st0 i)) a b q \<and>
               ev = ProgressEvent (b_id (batchAt st0 i)) q)) \<and>
        (\<forall>f \<in> set fails. attempt f = Some 1 \<and> profile f = b_profile (batchAt st0 i)))"

text \<open>A progress snapshot is consistent.\<close>

definition consistent :: "batch_progress \<Rightarrow> bool" where
  "consistent p \<longleftrightarrow> processed p = succeeded p + failed p \<and> processed p \<le> total p"

definition snapshotOk :: "event \<Rightarrow> bool" where
  "snapshotOk ev = (case ev of ProgressEvent bid p \<Rightarrow> consistent p | _ \<Rightarrow> True)"

text \<open>
  What holds of the engine after any sequence of calls: a batch that has not started has
  its counters at zero, every snapshot emitted so far is consistent, the keys of the map
  are distinct, and they are identifiers that \<open>uuidv4\<close> has already returned.
\<close>

definition engineOk :: "env \<Rightarrow> engine \<Rightarrow> bool" where
  "engineOk e st \<longleftrightarrow>
     (\<forall>kv \<in> set (batches st). status (snd kv) = Scheduled \<longrightarrow> progress (snd kv) = zeroProgress) \<and>
     (\<forall>ev \<in> set (emitted st). snapshotOk ev) \<and>
     distinct (map fst (batches st)) \<and>
     fst ` set (batches st) \<subseteq> uuidv4 e ` {..< uuidCalls st}"


text \<open>What the invariant says of the map holds of a map read back from the state file.\<close>

definition registryOk :: "env \<Rightarrow> nat \<Rightarrow> (batch_id \<times> batch) list \<Rightarrow> bool" where
  "registryOk e n m \<longleftrightarrow>
     (\<forall>kv \<in> set m. status (snd kv) = Scheduled \<longrightarrow> progress (snd kv) = zeroProgress) \<and>
     distinct (map fst m) \<and>
     fst ` set m \<subseteq> uuidv4 e ` {..< n}"

definition fileOk :: "env \<Rightarrow> engine \<Rightarrow> bool" where
  "fileOk e st \<longleftrightarrow>
     (case stateFile st of Entries m \<Rightarrow> registryOk e (uuidCalls st) m | _ \<Rightarrow> True)"

text \<open>
  While a batch is being executed: its position is in the map, it is not scheduled, and
  the map and the file are sound.
\<close>

definition executing :: "env \<Rightarrow> nat \<Rightarrow> engine \<Rightarrow> bool" where
  "executing e i st \<longleftrightarrow>
     i < length (batches st) \<and> status (batchAt st i) \<noteq> Scheduled \<and>
     registryOk e (uuidCalls st) (batches st) \<and> fileOk e st"

text \<open>
  From \<open>st\<close> to \<open>st1\<close> no batch has moved or changed its key, no batch but the one at position
  \<open>i\<close> has changed, and no identifier has been drawn.
\<close>

definition touchesOnly :: "nat \<Rightarrow> engine \<Rightarrow> engine \<Rightarrow> bool" where
  "touchesOnly i st st1 \<longleftrightarrow>
     length (batches st1) = length (batches st) \<and>
     (\<forall>j. j \<noteq> i \<longrightarrow> batches st1 ! j = batches st ! j) \<and>
     fst (batches st1 ! i) = fst (batches st ! i) \<and>
     uuidCalls st1 = uuidCalls st"

text \<open>The status of the batch at a position of the map of a process.\<close>

definition statusAt :: "process \<Rightarrow> nat \<Rightarrow> batch_status" where
  "statusAt s j = status (batchAt (eng s) j)"

text \<open>
  What holds of a process after any steps: the map and the file are sound, and every call
  of \<open>executeBatch\<close> that waits has rows left and holds a batch of the map that is
  \<open>running\<close> or \<open>completed\<close>, no two of them the same batch.
\<close>

definition processOk :: "env \<Rightarrow> process \<Rightarrow> bool" where
  "processOk e s \<longleftrightarrow>
     registryOk e (uuidCalls (eng s)) (batches (eng s)) \<and> fileOk e (eng s) \<and>
     (\<forall>t \<in> set (tasks s).
        t_index t < length (batches (eng s)) \<and>
        (statusAt s (t_index t) = Running \<or> statusAt s (t_index t) = Completed) \<and>
        t_pending t \<noteq> []) \<and>
     distinct (map t_index (tasks s))"

section \<open>Concrete runs\<close>

text \<open>
  Identifiers 0, 1, 2, ...; a clock that advances by one at each reading; a disk that
  accepts every write; the placeholder processor on a given sequence of random draws.
\<close>

definition envWith :: "(nat \<Rightarrow> real) \<Rightarrow> env" where
  "envWith rnd = \<lparr> uuidv4 = (\<lambda>k. k), dateNow = (\<lambda>k. int k), writeFileSync = (\<lambda>k. Written),
                   processForm = simulatedProcessForm rnd \<rparr>"

text \<open>Every draw is 1: each submission fails. Every draw is 0: each succeeds.\<close>

definition unluckyEnv :: env where
  "unluckyEnv = envWith (\<lambda>k. 1)"

definition luckyEnv :: env where
  "luckyEnv = envWith (\<lambda>k. 0)"

text \<open>
  The same with a disk that is full, where every write fails after the file has been
  truncated; with a directory that cannot be written, where no file is ever opened; and
  with a disk that takes the first write and refuses all others.
\<close>

definition diskFullEnv :: env where
  "diskFullEnv = luckyEnv \<lparr> writeFileSync := (\<lambda>k. Torn) \<rparr>"

definition readOnlyEnv :: env where
  "readOnlyEnv = luckyEnv \<lparr> writeFileSync := (\<lambda>k. Refused) \<rparr>"

definition oneWriteEnv :: env where
  "oneWriteEnv = luckyEnv \<lparr> writeFileSync := (\<lambda>k. if k = 0 then Written else Refused) \<rparr>"

text \<open>A disk that takes the first write and is full from then on.\<close>

definition fillingDiskEnv :: env where
  "fillingDiskEnv = luckyEnv \<lparr> writeFileSync := (\<lambda>k. if k = 0 then Written else Torn) \<rparr>"

definition defaultPolicy :: retry_policy where
  "defaultPolicy = \<lparr> maxAttempts = Some 3, retryDelayMs = Some 1000 \<rparr>"

definition failedRowA :: failure_record where
  "failedRowA = \<lparr> row = ''rowA'', profile = ''p1'',
                  error = ''Simulated form submission error'', attempt = Some 1 \<rparr>"

text \<open>
  A processor that accepts the row \<open>rowB\<close> and rejects every other row, with a message
  that names the state of the outside world at the attempt.
\<close>

definition flakyProcessForm :: "nat \<Rightarrow> profile \<Rightarrow> row \<Rightarrow> (string + submission) \<times> nat" where
  "flakyProcessForm w prof r =
     (if r = ''rowB''
      then (Inr \<lparr> sub_profile = prof, sub_row = r, sub_status = ''success'' \<rparr>, w + 1)
      else (Inl (''error at '' @ showNat w), w + 1))"

definition flakyEnv :: env where
  "flakyEnv = luckyEnv \<lparr> processForm := flakyProcessForm \<rparr>"

definition failedRowB :: failure_record where
  "failedRowB = \<lparr> row = ''rowB'', profile = ''p1'',
                  error = ''Simulated form submission error'', attempt = Some 1 \<rparr>"

text \<open>Two batches scheduled for the same profile, one after the other.\<close>

definition twoScheduled :: engine where
  "twoScheduled =
     snd (run luckyEnv [ScheduleBatchRun ''p1'' ''first'', ScheduleBatchRun ''p1'' ''second'']
            startup)"

text \<open>One batch scheduled and executed on one row, which the processor rejects.\<close>

definition oneFailed :: engine where
  "oneFailed =
     snd (run unluckyEnv [ScheduleBatchRun ''p1'' ''cfg'', ExecuteBatch ''p1'' [''rowA'']] startup)"

text \<open>
  One batch scheduled and its execution begun on one row; while that row is with the
  processor, \<open>handleBatchCompletion\<close> is called for the batch.
\<close>

definition startedRun :: "step list" where
  "startedRun = [Call (ScheduleBatchRun ''p1'' ''cfg''), Call (ExecuteBatch ''p1'' [''rowA''])]"

definition completedMeanwhile :: "step list" where
  "completedMeanwhile = startedRun @ [Call (HandleBatchCompletion 0 None)]"

text \<open>One batch scheduled and executed on no rows.\<close>

definition emptyRun :: "step list" where
  "emptyRun = [Call (ScheduleBatchRun ''p1'' ''cfg''), Call (ExecuteBatch ''p1'' [])]"

section \<open>Visibility filter\<close>

text \<open>
  C8, at a failing input: \<open>isHidden\<close> of form-detection-engine.js on a detached element
  (an element whose document has no view, or with no owning document) does not return
  \<open>true\<close>: it raises a \<open>TypeError\<close>. The copy in the consolidated core returns \<open>true\<close>
  on the same elements.
\<close>

theorem isHidden_detached_raises:
  "detached viewlessInput \<and> detached orphanInput \<and>
   isHidden viewlessInput = Inl TypeError \<and> isHidden orphanInput = Inl TypeError \<and>
   isHidden_core viewlessInput = Inr True \<and> isHidden_core orphanInput = Inr True"
  by (simp add: detached_def viewlessInput_def orphanInput_def plainInput_def)

section \<open>Mapping suggester\<close>












text \<open>
  When the rules keep no state (regular expressions without the \<open>g\<close> and \<open>y\<close> flags, and
  no predicate functions), whether a rule matches a field depends on the two alone, and the
  first rule of the array that matches decides.
\<close>

lemma stateless_test:
  assumes "\<not> re_keeps (regexps h a)"
  shows "testIfSet a s h = (s \<noteq> [] \<and> re_exec (regexps h a) s 0 \<noteq> None, h)"
  using assms by (simp add: testIfSet_def regexpTest_def fun_upd_idem split: option.splits)

lemma stateless_rule:
  assumes "fieldMatch rule = MatchRegExp a" and "\<not> re_keeps (regexps h a)"
  shows "snd (ruleMatches field rule h) = h"
    and "\<exists>found. fst (ruleMatches field rule h) = Inr found"
  using assms
  by (auto simp: ruleMatches_def fieldMatches_def stateless_test split: prod.splits sum.splits bool.splits)

lemma stateless_first_match:
  assumes plain: "\<forall>r \<in> set (pre @ [r1]). \<exists>a. fieldMatch r = MatchRegExp a \<and> \<not> re_keeps (regexps h a)"
      and none: "\<forall>r \<in> set pre. fst (ruleMatches field r h) = Inr False"
      and first: "fst (ruleMatches field r1 h) = Inr True"
  shows "bestMatch field (pre @ r1 # post) h = (Inr (Some (suggest r1)), h)"
  using plain none
proof (induction pre)
  case Nil
  then obtain a where "fieldMatch r1 = MatchRegExp a" "\<not> re_keeps (regexps h a)" by auto
  from stateless_rule(1) [OF this, of field] first
  have "ruleMatches field r1 h = (Inr True, h)" by (cases "ruleMatches field r1 h") simp
  then show ?case by simp
next
  case (Cons r pre)
  then obtain a where "fieldMatch r = MatchRegExp a" "\<not> re_keeps (regexps h a)" by auto
  from stateless_rule(1) [OF this, of field] Cons.prems(2)
  have "ruleMatches field r h = (Inr False, h)" by (cases "ruleMatches field r h") simp
  with Cons show ?case by simp
qed

section \<open>Visual fallback\<close>

lemma isHidden_plainInput: "isHidden (Element (plainInput nm a b) None) = Inr False"
  by (simp add: plainInput_def hiddenHere_def FORM_IGNORE_CLASSES_def)

lemma isHidden_core_plainInput: "isHidden_core (Element (plainInput nm a b) None) = Inr False"
  by (simp add: plainInput_def hiddenHere_def FORM_IGNORE_CLASSES_def)

lemma plainInput_sel:
  "el_disabled (plainInput nm a b) = False" "rect_top (plainInput nm a b) = a"
  "rect_bottom (plainInput nm a b) = b" "el_name (plainInput nm a b) = nm"
  by (simp_all add: plainInput_def)

lemma twoGroups_controls: "concat (map twoGroups FORM_FIELD_SELECTORS) = fourInputs"
  by (simp add: twoGroups_def FORM_FIELD_SELECTORS_def)

lemma fourInputs_visible:
  "filterVisible fourInputs = Inr fourInputs" "filterVisible_core fourInputs = Inr fourInputs"
  by (simp_all add: fourInputs_def isHidden_plainInput isHidden_core_plainInput plainInput_sel
        del: isHidden.simps isHidden_core.simps)

lemma fourInputs_clusters:
  "clustersOf (-) (sort_key (\<lambda>el. rect_top (props el)) fourInputs) =
     [[Element (plainInput ''first'' 0 20) None, Element (plainInput ''last'' 30 50) None],
      [Element (plainInput ''street'' 300 320) None, Element (plainInput ''city'' 330 350) None]]"
  by (simp add: fourInputs_def clustersOf_def plainInput_sel)

lemma fourInputs_length: "length fourInputs = 4"
  by (simp add: fourInputs_def)

lemma fallback_twoGroups:
  "fallbackVisualDetection (-) twoGroups =
     Inr [syntheticForm (0, [Element (plainInput ''first'' 0 20) None,
                             Element (plainInput ''last'' 30 50) None]),
          syntheticForm (1, [Element (plainInput ''street'' 300 320) None,
                             Element (plainInput ''city'' 330 350) None])]"
  by (simp add: fallbackVisualDetection_def twoGroups_controls fourInputs_visible
        fourInputs_clusters fourInputs_length)

lemma fallback_core_twoGroups:
  "fallbackVisualDetection_core (-) twoGroups =
     Inr [syntheticForm_core (0, [Element (plainInput ''first'' 0 20) None,
                                  Element (plainInput ''last'' 30 50) None]),
          syntheticForm_core (1, [Element (plainInput ''street'' 300 320) None,
                                  Element (plainInput ''city'' 330 350) None])]"
  by (simp add: fallbackVisualDetection_core_def twoGroups_controls fourInputs_visible
        fourInputs_clusters fourInputs_length)

text \<open>
  C6, at a failing input: on a page with two groups of controls,
  \<open>fallbackVisualDetection\<close> of form-detection-engine.js returns two synthetic descriptors
  (\<open>synthetic\<close> set, no container) whose ids are both empty and whose names are both empty,
  so neither tells them apart. The copy in the consolidated core numbers them.
\<close>

theorem fallback_ids_not_unique:
  "(\<exists>f g. fallbackVisualDetection (-) twoGroups = Inr [f, g] \<and>
          synthetic f \<and> synthetic g \<and> form_node f = None \<and> form_node g = None \<and>
          form_id f = [] \<and> form_id g = [] \<and> form_name f = [] \<and> form_name g = []) \<and>
   map form_id (projr (fallbackVisualDetection_core (-) twoGroups)) =
     [''synthetic-form-0'', ''synthetic-form-1''] \<and>
   map form_name (projr (fallbackVisualDetection_core (-) twoGroups)) =
     [''syntheticForm0'', ''syntheticForm1'']"
  by (simp add: fallback_twoGroups fallback_core_twoGroups syntheticForm_def syntheticForm_core_def)

lemma clusterLoop_sizes:
  "\<forall>c \<in> set acc. 2 \<le> length c \<Longrightarrow> c \<in> set (fst (clusterLoop fsub els acc cl lb)) \<Longrightarrow>
   2 \<le> length c"
proof (induction els arbitrary: acc cl lb)
  case Nil
  then show ?case by simp
next
  case (Cons el els)
  show ?case
  proof (cases "case lb of None \<Rightarrow> True | Some b \<Rightarrow> \<bar>fsub (rect_top (props el)) b\<bar> < 60")
    case True
    with Cons.prems(2)
    have "c \<in> set (fst (clusterLoop fsub els acc (cl @ [el]) (Some (rect_bottom (props el)))))"
      by simp
    with Cons.IH Cons.prems(1) show ?thesis by blast
  next
    case False
    let ?acc = "if 2 \<le> length cl then acc @ [cl] else acc"
    from False Cons.prems(2)
    have "c \<in> set (fst (clusterLoop fsub els ?acc [el] (Some (rect_bottom (props el)))))"
      by simp
    moreover have "\<forall>c \<in> set ?acc. 2 \<le> length c"
      using Cons.prems(1) by simp
    ultimately show ?thesis using Cons.IH by blast
  qed
qed

lemma clustersOf_sizes:
  assumes "c \<in> set (clustersOf fsub els)"
  shows "2 \<le> length c"
proof -
  obtain cf cl where loop: "clusterLoop fsub els [] [] None = (cf, cl)"
    by (cases "clusterLoop fsub els [] [] None")
  have kept: "\<And>d. d \<in> set cf \<Longrightarrow> 2 \<le> length d"
    using clusterLoop_sizes [of "[]" _ fsub els "[]" None] loop by simp
  from assms loop have "c \<in> set cf \<or> (c = cl \<and> 2 \<le> length cl)"
    by (auto simp: clustersOf_def split: if_splits)
  with kept show ?thesis by blast
qed

text \<open>
  C7: whenever \<open>fallbackVisualDetection\<close> returns, every synthetic form it returns has at
  least two fields; a cluster of one control is dropped, the last cluster included. This
  holds however the differences of the coordinates are rounded.
\<close>

theorem fallback_min_cluster_size:
  assumes "fallbackVisualDetection fsub domSnapshot = Inr forms" and "f \<in> set forms"
  shows "2 \<le> length (form_fields f)"
proof -
  from assms obtain idx c where "f = syntheticForm (idx, c)"
    and "c \<in> set (clustersOf fsub (sort_key (\<lambda>el. rect_top (props el))
                 (projr (filterVisible (concat (map domSnapshot FORM_FIELD_SELECTORS))))))"
    by (auto simp: fallbackVisualDetection_def in_set_enumerate_eq split: sum.splits if_splits)
  then show ?thesis using clustersOf_sizes by (simp add: syntheticForm_def)
qed

theorem fallback_min_cluster_size_witness:
  "fallbackVisualDetection (-) twoGroups =
     Inr [syntheticForm (0, [Element (plainInput ''first'' 0 20) None,
                             Element (plainInput ''last'' 30 50) None]),
          syntheticForm (1, [Element (plainInput ''street'' 300 320) None,
                             Element (plainInput ''city'' 330 350) None])] \<and>
   2 \<le> length (form_fields (syntheticForm (1, [Element (plainInput ''street'' 300 320) None,
                                                Element (plainInput ''city'' 330 350) None])))"
  using fallback_min_cluster_size [OF fallback_twoGroups,
          of "syntheticForm (1, [Element (plainInput ''street'' 300 320) None,
                                 Element (plainInput ''city'' 330 350) None])"]
    fallback_twoGroups
  by simp

section \<open>Batch execution\<close>

lemma persist_frame [simp]:
  "batches (persistBatchState e st) = batches st"
  "emitted (persistBatchState e st) = emitted st"
  "uuidCalls (persistBatchState e st) = uuidCalls st"
  "clockReads (persistBatchState e st) = clockReads st"
  "world (persistBatchState e st) = world st"
  "writes (persistBatchState e st) = Suc (writes st)"
  by (simp_all add: persistBatchState_def split: write_outcome.splits)

lemma tick_frame [simp]:
  "batches (tick n st) = batches st"
  "emitted (tick n st) = emitted st"
  "uuidCalls (tick n st) = uuidCalls st"
  "clockReads (tick n st) = clockReads st + n"
  "world (tick n st) = world st"
  "writes (tick n st) = writes st"
  "stateFile (tick n st) = stateFile st"
  "console (tick n st) = console st"
  by (simp_all add: tick_def)

lemma emit_frame [simp]:
  "batches (emit ev st) = batches st"
  "emitted (emit ev st) = emitted st @ [ev]"
  "uuidCalls (emit ev st) = uuidCalls st"
  "clockReads (emit ev st) = clockReads st"
  "world (emit ev st) = world st"
  "writes (emit ev st) = writes st"
  "stateFile (emit ev st) = stateFile st"
  "console (emit ev st) = console st"
  by (simp_all add: emit_def)

lemma mutate_frame [simp]:
  "batches (mutate i f st) = (batches st) [i := (fst (batches st ! i), f (batchAt st i))]"
  "emitted (mutate i f st) = emitted st"
  "uuidCalls (mutate i f st) = uuidCalls st"
  "clockReads (mutate i f st) = clockReads st"
  "world (mutate i f st) = world st"
  "writes (mutate i f st) = writes st"
  "stateFile (mutate i f st) = stateFile st"
  "console (mutate i f st) = console st"
  by (simp_all add: mutate_def batchAt_def)

lemma batchAt_frame [simp]:
  "batchAt (persistBatchState e st) j = batchAt st j"
  "batchAt (tick n st) j = batchAt st j"
  "batchAt (emit ev st) j = batchAt st j"
  "batchAt (st \<lparr> world := w \<rparr>) j = batchAt st j"
  by (simp_all add: batchAt_def)

lemma batchAt_mutate:
  "i < length (batches st) \<Longrightarrow> batchAt (mutate i f st) i = f (batchAt st i)"
  "j \<noteq> i \<Longrightarrow> batchAt (mutate i f st) j = batchAt st j"
  by (simp_all add: batchAt_def mutate_def)



lemma rowsDone_start: "rowsDone i st ([], [], st)"
  by (simp add: rowsDone_def sameBatch_def advancedBy_def)

lemma rowDone_after:
  assumes "i < length (batches st)"
  shows "length (batches (rowDone e i (mutate i f (st \<lparr> world := w \<rparr>)))) = length (batches st)"
    and "j \<noteq> i \<Longrightarrow> batches (rowDone e i (mutate i f (st \<lparr> world := w \<rparr>))) ! j = batches st ! j"
    and "fst (batches (rowDone e i (mutate i f (st \<lparr> world := w \<rparr>))) ! i) = fst (batches st ! i)"
    and "batchAt (rowDone e i (mutate i f (st \<lparr> world := w \<rparr>))) i =
           (f (batchAt st i)) \<lparr> progress := (progress (f (batchAt st i)))
                                   \<lparr> processed := processed (progress (f (batchAt st i))) + 1 \<rparr>,
                                 updatedAt := dateNow e (clockReads st) \<rparr>"
    and "emitted (rowDone e i (mutate i f (st \<lparr> world := w \<rparr>))) = emitted st @
           [ProgressEvent (b_id (f (batchAt st i)))
              ((progress (f (batchAt st i))) \<lparr> processed := processed (progress (f (batchAt st i))) + 1 \<rparr>)]"
    and "uuidCalls (rowDone e i (mutate i f (st \<lparr> world := w \<rparr>))) = uuidCalls st"
  using assms
  by (simp_all add: rowDone_def Let_def mutate_def batchAt_def now_def tick_def emit_def)

lemma rowsDone_step:
  assumes inv: "rowsDone i st0 acc" and i: "i < length (batches st0)"
  shows "rowsDone i st0 (processRow e i acc r)"
proof -
  obtain res fails st where acc: "acc = (res, fails, st)" by (cases acc)
  from inv acc obtain evs where
    len: "length (batches st) = length (batches st0)"
    and others: "\<forall>j. j \<noteq> i \<longrightarrow> batches st ! j = batches st0 ! j"
    and key: "fst (batches st ! i) = fst (batches st0 ! i)"
    and same: "sameBatch (batchAt st i) (batchAt st0 i)"
    and adv: "advancedBy (progress (batchAt st0 i)) (length res) (length fails) (progress (batchAt st i))"
    and uu: "uuidCalls st = uuidCalls st0"
    and ev: "emitted st = emitted st0 @ evs" "length evs = length res + length fails"
      "\<forall>ev \<in> set evs. \<exists>a b q. a + b \<le> length res + length fails \<and>
         advancedBy (progress (batchAt st0 i)) a b q \<and> ev = ProgressEvent (b_id (batchAt st0 i)) q"
    and fl: "\<forall>f \<in> set fails. attempt f = Some 1 \<and> profile f = b_profile (batchAt st0 i)"
    unfolding rowsDone_def by auto
  from len i have li: "i < length (batches st)" by simp
  have older: "\<forall>ev \<in> set evs. \<exists>a b q. a + b \<le> Suc (length res + length fails) \<and>
         advancedBy (progress (batchAt st0 i)) a b q \<and> ev = ProgressEvent (b_id (batchAt st0 i)) q"
    using ev(3) le_SucI by blast
  obtain out w where pf: "processForm e (world st) (b_profile (batchAt st i)) r = (out, w)"
    by (cases "processForm e (world st) (b_profile (batchAt st i)) r")
  show ?thesis
  proof (cases out)
    case (Inl m)
    let ?f = "\<lambda>b. b \<lparr> progress := (progress b) \<lparr> failed := failed (progress b) + 1 \<rparr> \<rparr>"
    let ?st1 = "rowDone e i (mutate i ?f (st \<lparr> world := w \<rparr>))"
    let ?q = "(progress (?f (batchAt st i))) \<lparr> processed := processed (progress (?f (batchAt st i))) + 1 \<rparr>"
    have step: "processRow e i acc r = (res, fails @ [\<lparr> row = r, profile = b_profile (batchAt st i), error = m, attempt = Some 1 \<rparr>], ?st1)"
      using pf Inl acc by (simp add: processRow_def)
    have q: "advancedBy (progress (batchAt st0 i)) (length res) (Suc (length fails)) ?q"
      using adv by (simp add: advancedBy_def)
    have newer: "\<exists>a b q. a + b \<le> Suc (length res + length fails) \<and>
         advancedBy (progress (batchAt st0 i)) a b q \<and>
         ProgressEvent (b_id (?f (batchAt st i))) ?q = ProgressEvent (b_id (batchAt st0 i)) q"
      using q same by (intro exI [of _ "length res"] exI [of _ "Suc (length fails)"] exI [of _ ?q])
        (simp add: sameBatch_def)
    show ?thesis
      unfolding step rowsDone_def prod.case
      apply (intro conjI)
      subgoal using len by (simp add: rowDone_after [OF li])
      subgoal using others by (simp add: rowDone_after [OF li])
      subgoal using key by (simp add: rowDone_after [OF li])
      subgoal using same by (simp add: rowDone_after [OF li] sameBatch_def)
      subgoal using adv by (simp add: rowDone_after [OF li] advancedBy_def)
      subgoal using uu by (simp add: rowDone_after [OF li])
      subgoal
        apply (rule exI [of _ "evs @ [ProgressEvent (b_id (?f (batchAt st i))) ?q]"])
        using ev(1,2) older newer by (simp add: rowDone_after [OF li])
      subgoal using fl same by (simp add: sameBatch_def)
      done
  next
    case (Inr x)
    let ?f = "\<lambda>b. b \<lparr> progress := (progress b) \<lparr> succeeded := succeeded (progress b) + 1 \<rparr> \<rparr>"
    let ?st1 = "rowDone e i (mutate i ?f (st \<lparr> world := w \<rparr>))"
    let ?q = "(progress (?f (batchAt st i))) \<lparr> processed := processed (progress (?f (batchAt st i))) + 1 \<rparr>"
    have step: "processRow e i acc r = (res @ [x], fails, ?st1)"
      using pf Inr acc by (simp add: processRow_def)
    have q: "advancedBy (progress (batchAt st0 i)) (Suc (length res)) (length fails) ?q"
      using adv by (simp add: advancedBy_def)
    have newer: "\<exists>a b q. a + b \<le> Suc (length res + length fails) \<and>
         advancedBy (progress (batchAt st0 i)) a b q \<and>
         ProgressEvent (b_id (?f (batchAt st i))) ?q = ProgressEvent (b_id (batchAt st0 i)) q"
      using q same by (intro exI [of _ "Suc (length res)"] exI [of _ "length fails"] exI [of _ ?q])
        (simp add: sameBatch_def)
    show ?thesis
      unfolding step rowsDone_def prod.case
      apply (intro conjI)
      subgoal using len by (simp add: rowDone_after [OF li])
      subgoal using others by (simp add: rowDone_after [OF li])
      subgoal using key by (simp add: rowDone_after [OF li])
      subgoal using same by (simp add: rowDone_after [OF li] sameBatch_def)
      subgoal using adv by (simp add: rowDone_after [OF li] advancedBy_def)
      subgoal using uu by (simp add: rowDone_after [OF li])
      subgoal
        apply (rule exI [of _ "evs @ [ProgressEvent (b_id (?f (batchAt st i))) ?q]"])
        using ev(1,2) older newer by (simp add: rowDone_after [OF li])
      subgoal using fl by simp
      done
  qed
qed

lemma rowsDone_fold:
  assumes "rowsDone i st0 acc" and "i < length (batches st0)"
  shows "rowsDone i st0 (foldl (processRow e i) acc rows)"
  using assms by (induction rows arbitrary: acc) (simp_all add: rowsDone_step)

lemma fold_lengths:
  "foldl (processRow e i) acc rows = (res, fails, st) \<Longrightarrow>
   length res + length fails = length (fst acc) + length (fst (snd acc)) + length rows"
proof (induction rows arbitrary: acc)
  case Nil
  then show ?case by auto
next
  case (Cons r rows)
  have "length (fst (processRow e i acc r)) + length (fst (snd (processRow e i acc r))) = length (fst acc) + length (fst (snd acc)) + 1"
    by (cases acc) (auto simp: processRow_def split: prod.splits sum.splits)
  with Cons show ?case by fastforce
qed


lemma findIndex_Some:
  "findIndex P xs = Some i \<Longrightarrow> i < length xs \<and> P (xs ! i) \<and> (\<forall>j < i. \<not> P (xs ! j))"
proof (induction xs arbitrary: i)
  case Nil
  then show ?case by simp
next
  case (Cons x xs)
  show ?case
  proof (cases "P x")
    case True
    with Cons.prems show ?thesis by simp
  next
    case False
    with Cons.prems obtain k where k: "findIndex P xs = Some k" "i = Suc k" by auto
    from Cons.IH [OF k(1)] False k(2) show ?thesis
      by (auto simp: less_Suc_eq_0_disj)
  qed
qed

lemma findIndex_None: "findIndex P xs = None \<longleftrightarrow> (\<forall>x \<in> set xs. \<not> P x)"
  by (induction xs) auto

lemma findIndex_first:
  "i < length xs \<Longrightarrow> P (xs ! i) \<Longrightarrow> \<forall>j < i. \<not> P (xs ! j) \<Longrightarrow> findIndex P xs = Some i"
proof (induction xs arbitrary: i)
  case Nil
  then show ?case by simp
next
  case (Cons x xs)
  show ?case
  proof (cases i)
    case 0
    with Cons.prems show ?thesis by simp
  next
    case (Suc k)
    with Cons.prems have "\<not> P x" by auto
    moreover from Suc Cons.prems have "findIndex P xs = Some k"
      by (intro Cons.IH) auto
    ultimately show ?thesis using Suc by simp
  qed
qed

lemma beginBatch_after:
  assumes "i < length (batches st)"
  shows "length (batches (beginBatch e i rows st)) = length (batches st)"
    and "j \<noteq> i \<Longrightarrow> batches (beginBatch e i rows st) ! j = batches st ! j"
    and "fst (batches (beginBatch e i rows st) ! i) = fst (batches st ! i)"
    and "batchAt (beginBatch e i rows st) i =
           (batchAt st i) \<lparr> inputRows := rows,
                            progress := (progress (batchAt st i)) \<lparr> total := length rows \<rparr>,
                            status := Running, updatedAt := dateNow e (clockReads st) \<rparr>"
    and "emitted (beginBatch e i rows st) = emitted st @ [BatchStarted (b_id (batchAt st i))]"
    and "uuidCalls (beginBatch e i rows st) = uuidCalls st"
  using assms
  by (simp_all add: beginBatch_def Let_def mutate_def batchAt_def now_def tick_def emit_def)

lemma finishBatch_after:
  assumes "i < length (batches st)"
  shows "length (batches (finishBatch e i rows fails st)) = length (batches st)"
    and "j \<noteq> i \<Longrightarrow> batches (finishBatch e i rows fails st) ! j = batches st ! j"
    and "fst (batches (finishBatch e i rows fails st) ! i) = fst (batches st ! i)"
    and "batchAt (finishBatch e i rows fails st) i =
           (batchAt st i) \<lparr> failures := fails,
                            status := (if length fails = 0 then Completed else Failed),
                            updatedAt := dateNow e (clockReads st),
                            summary := Some \<lparr> sm_total = length rows,
                                              sm_succeeded = succeeded (progress (batchAt st i)),
                                              sm_failed = failed (progress (batchAt st i)),
                                              completedAt = dateNow e (Suc (clockReads st)) \<rparr> \<rparr>"
    and "emitted (finishBatch e i rows fails st) = emitted st @
           [BatchCompleted (b_id (batchAt st i))
              \<lparr> sm_total = length rows,
                sm_succeeded = succeeded (progress (batchAt st i)),
                sm_failed = failed (progress (batchAt st i)),
                completedAt = dateNow e (Suc (clockReads st)) \<rparr>]"
    and "uuidCalls (finishBatch e i rows fails st) = uuidCalls st"
  using assms
  by (simp_all add: finishBatch_def Let_def mutate_def batchAt_def now_def tick_def emit_def)

text \<open>What one call of \<open>executeBatch\<close> does when it finds the batch at position \<open>i\<close>.\<close>

lemma executeBatch_effect:
  assumes found: "findScheduled prof (batches st) = Some i"
  obtains res fails st1 evs sm where
    "executeBatch e prof rows st =
       (Inr \<lparr> batchId = b_id (batchAt st i), results = res, exec_failures = fails \<rparr>, st1)"
    "length (batches st1) = length (batches st)"
    "\<forall>j. j \<noteq> i \<longrightarrow> batches st1 ! j = batches st ! j"
    "fst (batches st1 ! i) = fst (batches st ! i)"
    "b_id (batchAt st1 i) = b_id (batchAt st i)"
    "b_profile (batchAt st1 i) = b_profile (batchAt st i)"
    "status (batchAt st1 i) = (if fails = [] then Completed else Failed)"
    "failures (batchAt st1 i) = fails"
    "inputRows (batchAt st1 i) = rows"
    "advancedBy ((progress (batchAt st i)) \<lparr> total := length rows \<rparr>) (length res) (length fails)
       (progress (batchAt st1 i))"
    "length res + length fails = length rows"
    "uuidCalls st1 = uuidCalls st"
    "emitted st1 = emitted st @ BatchStarted (b_id (batchAt st i)) # evs @
                     [BatchCompleted (b_id (batchAt st i)) sm]"
    "length evs = length rows"
    "\<forall>ev \<in> set evs. \<exists>a b q. a + b \<le> length rows \<and>
        advancedBy ((progress (batchAt st i)) \<lparr> total := length rows \<rparr>) a b q \<and>
        ev = ProgressEvent (b_id (batchAt st i)) q"
    "\<forall>f \<in> set fails. attempt f = Some 1 \<and> profile f = b_profile (batchAt st i)"
proof -
  from found have i: "i < length (batches st)"
    using findIndex_Some unfolding findScheduled_def by blast
  let ?s0 = "beginBatch e i rows st"
  have i0: "i < length (batches ?s0)" using i by (simp add: beginBatch_after)
  obtain res fails s1 where loop: "processRows e i rows ?s0 = (res, fails, s1)"
    by (cases "processRows e i rows ?s0")
  have inv: "rowsDone i ?s0 (res, fails, s1)"
    using rowsDone_fold [OF rowsDone_start i0, of e rows] loop by (simp add: processRows_def)
  have n: "length res + length fails = length rows"
    using fold_lengths [of e i "([], [], ?s0)" rows res fails s1] loop
    by (simp add: processRows_def)
  from inv obtain evs where
    len: "length (batches s1) = length (batches ?s0)"
    and others: "\<forall>j. j \<noteq> i \<longrightarrow> batches s1 ! j = batches ?s0 ! j"
    and key: "fst (batches s1 ! i) = fst (batches ?s0 ! i)"
    and same: "sameBatch (batchAt s1 i) (batchAt ?s0 i)"
    and adv: "advancedBy (progress (batchAt ?s0 i)) (length res) (length fails) (progress (batchAt s1 i))"
    and uu: "uuidCalls s1 = uuidCalls ?s0"
    and ev: "emitted s1 = emitted ?s0 @ evs" "length evs = length res + length fails"
      "\<forall>ev \<in> set evs. \<exists>a b q. a + b \<le> length res + length fails \<and>
         advancedBy (progress (batchAt ?s0 i)) a b q \<and> ev = ProgressEvent (b_id (batchAt ?s0 i)) q"
    and fl: "\<forall>f \<in> set fails. attempt f = Some 1 \<and> profile f = b_profile (batchAt ?s0 i)"
    unfolding rowsDone_def by auto
  from len i0 have i1: "i < length (batches s1)" by simp
  let ?s2 = "finishBatch e i rows fails s1"
  let ?sm = "\<lparr> sm_total = length rows, sm_succeeded = succeeded (progress (batchAt s1 i)),
               sm_failed = failed (progress (batchAt s1 i)),
               completedAt = dateNow e (Suc (clockReads s1)) \<rparr>"
  have p0: "progress (batchAt ?s0 i) = (progress (batchAt st i)) \<lparr> total := length rows \<rparr>"
    and id0: "b_id (batchAt ?s0 i) = b_id (batchAt st i)"
    and pr0: "b_profile (batchAt ?s0 i) = b_profile (batchAt st i)"
    and rows0: "inputRows (batchAt ?s0 i) = rows"
    by (simp_all add: beginBatch_after [OF i])
  from same have id1: "b_id (batchAt s1 i) = b_id (batchAt ?s0 i)"
    and pr1: "b_profile (batchAt s1 i) = b_profile (batchAt ?s0 i)"
    and rows1: "inputRows (batchAt s1 i) = inputRows (batchAt ?s0 i)"
    by (simp_all add: sameBatch_def)
  show thesis
  proof (rule that [of res fails ?s2 evs ?sm])
    show "executeBatch e prof rows st =
       (Inr \<lparr> batchId = b_id (batchAt st i), results = res, exec_failures = fails \<rparr>, ?s2)"
      using found loop id1 id0 by (simp add: executeBatch_def Let_def finishBatch_after [OF i1])
    show "length (batches ?s2) = length (batches st)"
      using len by (simp add: finishBatch_after [OF i1] beginBatch_after [OF i])
    show "\<forall>j. j \<noteq> i \<longrightarrow> batches ?s2 ! j = batches st ! j"
      using others by (simp add: finishBatch_after [OF i1] beginBatch_after [OF i])
    show "fst (batches ?s2 ! i) = fst (batches st ! i)"
      using key by (simp add: finishBatch_after [OF i1] beginBatch_after [OF i])
    show "b_id (batchAt ?s2 i) = b_id (batchAt st i)"
      using id1 id0 by (simp add: finishBatch_after [OF i1])
    show "b_profile (batchAt ?s2 i) = b_profile (batchAt st i)"
      using pr1 pr0 by (simp add: finishBatch_after [OF i1])
    show "status (batchAt ?s2 i) = (if fails = [] then Completed else Failed)"
      by (simp add: finishBatch_after [OF i1])
    show "failures (batchAt ?s2 i) = fails"
      by (simp add: finishBatch_after [OF i1])
    show "inputRows (batchAt ?s2 i) = rows"
      using rows1 rows0 by (simp add: finishBatch_after [OF i1])
    show "advancedBy ((progress (batchAt st i)) \<lparr> total := length rows \<rparr>) (length res) (length fails)
       (progress (batchAt ?s2 i))"
      using adv p0 by (simp add: finishBatch_after [OF i1])
    show "length res + length fails = length rows" by (rule n)
    show "uuidCalls ?s2 = uuidCalls st"
      using uu by (simp add: finishBatch_after [OF i1] beginBatch_after [OF i])
    show "emitted ?s2 = emitted st @ BatchStarted (b_id (batchAt st i)) # evs @
                     [BatchCompleted (b_id (batchAt st i)) ?sm]"
      using ev(1) id1 id0 by (simp add: finishBatch_after [OF i1] beginBatch_after [OF i])
    show "length evs = length rows" using ev(2) n by simp
    show "\<forall>ev \<in> set evs. \<exists>a b q. a + b \<le> length rows \<and>
        advancedBy ((progress (batchAt st i)) \<lparr> total := length rows \<rparr>) a b q \<and>
        ev = ProgressEvent (b_id (batchAt st i)) q"
      using ev(3) n p0 id0 by simp
    show "\<forall>f \<in> set fails. attempt f = Some 1 \<and> profile f = b_profile (batchAt st i)"
      using fl pr0 by simp
  qed
qed

section \<open>The invariant holds after every sequence of calls\<close>

lemma keys_unchanged:
  assumes "length (batches st1) = length (batches st)"
      and "\<forall>j. j \<noteq> i \<longrightarrow> batches st1 ! j = batches st ! j"
      and "fst (batches st1 ! i) = fst (batches st ! i)"
  shows "map fst (batches st1) = map fst (batches st)"
proof (rule nth_equalityI)
  show "length (map fst (batches st1)) = length (map fst (batches st))"
    using assms(1) by simp
next
  fix j assume "j < length (map fst (batches st1))"
  then show "map fst (batches st1) ! j = map fst (batches st) ! j"
    using assms by (cases "j = i") simp_all
qed

lemma mapSet_keys:
  "map fst (mapSet k v m) = (if k \<in> fst ` set m then map fst m else map fst m @ [k])"
  by (auto simp: mapSet_def intro: map_idI)

lemma mapSet_values:
  "kv \<in> set (mapSet k v m) \<Longrightarrow> kv = (k, v) \<or> kv \<in> set m"
  by (auto simp: mapSet_def split: if_splits)

lemma mapSet_fresh: "k \<notin> fst ` set m \<Longrightarrow> mapSet k v m = m @ [(k, v)]"
  by (simp add: mapSet_def)


lemma scheduleBatchRun_after:
  "fst (scheduleBatchRun e prof cfg st) = uuidv4 e (uuidCalls st)"
  "batches (snd (scheduleBatchRun e prof cfg st)) =
     mapSet (uuidv4 e (uuidCalls st)) (newBatch e st (uuidv4 e (uuidCalls st)) prof cfg) (batches st)"
  "emitted (snd (scheduleBatchRun e prof cfg st)) = emitted st"
  "uuidCalls (snd (scheduleBatchRun e prof cfg st)) = Suc (uuidCalls st)"
  "world (snd (scheduleBatchRun e prof cfg st)) = world st"
  by (simp_all add: scheduleBatchRun_def Let_def tick_def)

lemma engineOk_schedule:
  assumes "engineOk e st"
  shows "engineOk e (snd (scheduleBatchRun e prof cfg st))"
proof -
  let ?k = "uuidv4 e (uuidCalls st)"
  let ?st1 = "snd (scheduleBatchRun e prof cfg st)"
  have fresh: "status (newBatch e st ?k prof cfg) = Scheduled"
    "progress (newBatch e st ?k prof cfg) = zeroProgress"
    by (simp_all add: newBatch_def)
  have "\<forall>kv \<in> set (batches ?st1). status (snd kv) = Scheduled \<longrightarrow> progress (snd kv) = zeroProgress"
    using assms fresh mapSet_values [of _ ?k "newBatch e st ?k prof cfg" "batches st"]
    unfolding engineOk_def scheduleBatchRun_after by fastforce
  moreover have "\<forall>ev \<in> set (emitted ?st1). snapshotOk ev"
    using assms by (simp add: engineOk_def scheduleBatchRun_after)
  moreover have "distinct (map fst (batches ?st1))"
    using assms by (simp add: engineOk_def scheduleBatchRun_after mapSet_keys)
  moreover have "fst ` set (batches ?st1) \<subseteq> uuidv4 e ` {..< uuidCalls ?st1}"
  proof -
    have "set (map fst (batches ?st1)) \<subseteq> insert ?k (set (map fst (batches st)))"
      unfolding scheduleBatchRun_after mapSet_keys by auto
    moreover have "set (map fst (batches st)) \<subseteq> uuidv4 e ` {..< uuidCalls st}"
      using assms by (simp add: engineOk_def)
    ultimately show ?thesis
      unfolding scheduleBatchRun_after(4) lessThan_Suc by auto
  qed
  ultimately show ?thesis unfolding engineOk_def by blast
qed

lemma zero_advanced_consistent:
  assumes "advancedBy (zeroProgress \<lparr> total := n \<rparr>) a b q" and "a + b \<le> n"
  shows "consistent q"
  using assms by (simp add: advancedBy_def consistent_def zeroProgress_def)

lemma engineOk_execute:
  assumes ok: "engineOk e st"
  shows "engineOk e (snd (executeBatch e prof rows st))"
proof (cases "findScheduled prof (batches st)")
  case None
  then show ?thesis using ok by (simp add: executeBatch_def)
next
  case (Some i)
  from Some have i: "i < length (batches st)" and sched: "status (batchAt st i) = Scheduled"
    using findIndex_Some [of _ "batches st" i] unfolding findScheduled_def batchAt_def by auto
  from ok i sched have zero: "progress (batchAt st i) = zeroProgress"
    unfolding engineOk_def batchAt_def using nth_mem by blast
  from executeBatch_effect [OF Some, of e rows] obtain res fails st1 evs sm where
    run: "executeBatch e prof rows st =
       (Inr \<lparr> batchId = b_id (batchAt st i), results = res, exec_failures = fails \<rparr>, st1)"
    and len: "length (batches st1) = length (batches st)"
    and others: "\<forall>j. j \<noteq> i \<longrightarrow> batches st1 ! j = batches st ! j"
    and key: "fst (batches st1 ! i) = fst (batches st ! i)"
    and stat: "status (batchAt st1 i) = (if fails = [] then Completed else Failed)"
    and uu: "uuidCalls st1 = uuidCalls st"
    and em: "emitted st1 = emitted st @ BatchStarted (b_id (batchAt st i)) # evs @
                     [BatchCompleted (b_id (batchAt st i)) sm]"
    and evs: "\<forall>ev \<in> set evs. \<exists>a b q. a + b \<le> length rows \<and>
        advancedBy ((progress (batchAt st i)) \<lparr> total := length rows \<rparr>) a b q \<and>
        ev = ProgressEvent (b_id (batchAt st i)) q"
    by metis
  have keys: "map fst (batches st1) = map fst (batches st)"
    using keys_unchanged [OF len others key] .
  have "\<forall>kv \<in> set (batches st1). status (snd kv) = Scheduled \<longrightarrow> progress (snd kv) = zeroProgress"
  proof
    fix kv assume "kv \<in> set (batches st1)"
    then obtain j where j: "j < length (batches st1)" "kv = batches st1 ! j"
      by (auto simp: in_set_conv_nth)
    show "status (snd kv) = Scheduled \<longrightarrow> progress (snd kv) = zeroProgress"
    proof (cases "j = i")
      case True
      with j stat show ?thesis by (simp add: batchAt_def)
    next
      case False
      with j others len have "kv \<in> set (batches st)" by (simp)
      with ok show ?thesis unfolding engineOk_def by blast
    qed
  qed
  moreover have "\<forall>ev \<in> set (emitted st1). snapshotOk ev"
  proof -
    have "\<forall>ev \<in> set evs. snapshotOk ev"
      using evs zero zero_advanced_consistent unfolding snapshotOk_def by fastforce
    with ok show ?thesis unfolding em engineOk_def by (auto simp: snapshotOk_def)
  qed
  moreover have "distinct (map fst (batches st1))"
    using ok keys by (simp add: engineOk_def)
  moreover have "fst ` set (batches st1) \<subseteq> uuidv4 e ` {..< uuidCalls st1}"
  proof -
    have "fst ` set (batches st1) = fst ` set (batches st)"
      using keys by (metis set_map)
    with ok uu show ?thesis by (simp add: engineOk_def)
  qed
  ultimately show ?thesis unfolding engineOk_def run by simp
qed

lemma handleBatchCompletion_after:
  assumes "mapGet bid (batches st) = Some i"
  shows "length (batches (handleBatchCompletion e bid sm st)) = length (batches st)"
    and "j \<noteq> i \<Longrightarrow> batches (handleBatchCompletion e bid sm st) ! j = batches st ! j"
    and "fst (batches (handleBatchCompletion e bid sm st) ! i) = fst (batches st ! i)"
    and "batchAt (handleBatchCompletion e bid sm st) i =
           (batchAt st i) \<lparr> status := Completed, summary := sm,
                            updatedAt := dateNow e (clockReads st) \<rparr>"
    and "emitted (handleBatchCompletion e bid sm st) = emitted st @ [BatchFinalized bid sm]"
    and "uuidCalls (handleBatchCompletion e bid sm st) = uuidCalls st"
proof -
  from assms have "i < length (batches st)"
    using findIndex_Some unfolding mapGet_def by blast
  with assms show "length (batches (handleBatchCompletion e bid sm st)) = length (batches st)"
    and "j \<noteq> i \<Longrightarrow> batches (handleBatchCompletion e bid sm st) ! j = batches st ! j"
    and "fst (batches (handleBatchCompletion e bid sm st) ! i) = fst (batches st ! i)"
    and "batchAt (handleBatchCompletion e bid sm st) i =
           (batchAt st i) \<lparr> status := Completed, summary := sm,
                            updatedAt := dateNow e (clockReads st) \<rparr>"
    and "emitted (handleBatchCompletion e bid sm st) = emitted st @ [BatchFinalized bid sm]"
    and "uuidCalls (handleBatchCompletion e bid sm st) = uuidCalls st"
    by (simp_all add: handleBatchCompletion_def Let_def mutate_def batchAt_def now_def tick_def
          emit_def)
qed

lemma engineOk_complete:
  assumes ok: "engineOk e st"
  shows "engineOk e (handleBatchCompletion e bid sm st)"
proof (cases "mapGet bid (batches st)")
  case None
  then show ?thesis using ok by (simp add: handleBatchCompletion_def)
next
  case (Some i)
  let ?st1 = "handleBatchCompletion e bid sm st"
  note after = handleBatchCompletion_after [OF Some, where e = e and sm = sm]
  have keys: "map fst (batches ?st1) = map fst (batches st)"
    using keys_unchanged [of ?st1 st i] after(1,2,3) by blast
  have "\<forall>kv \<in> set (batches ?st1). status (snd kv) = Scheduled \<longrightarrow> progress (snd kv) = zeroProgress"
  proof
    fix kv assume "kv \<in> set (batches ?st1)"
    then obtain j where j: "j < length (batches ?st1)" "kv = batches ?st1 ! j"
      by (auto simp: in_set_conv_nth)
    show "status (snd kv) = Scheduled \<longrightarrow> progress (snd kv) = zeroProgress"
    proof (cases "j = i")
      case True
      with j after(4) show ?thesis by (simp add: batchAt_def)
    next
      case False
      with j after(1,2) have "kv \<in> set (batches st)" by simp
      with ok show ?thesis unfolding engineOk_def by blast
    qed
  qed
  moreover have "\<forall>ev \<in> set (emitted ?st1). snapshotOk ev"
    using ok by (simp add: after(5) engineOk_def snapshotOk_def)
  moreover have "distinct (map fst (batches ?st1))"
    using ok keys by (simp add: engineOk_def)
  moreover have "fst ` set (batches ?st1) \<subseteq> uuidv4 e ` {..< uuidCalls ?st1}"
  proof -
    have "fst ` set (batches ?st1) = fst ` set (batches st)"
      using keys by (metis set_map)
    with ok after(6) show ?thesis by (simp add: engineOk_def)
  qed
  ultimately show ?thesis unfolding engineOk_def by blast
qed

lemma retry_frame:
  "batches (snd (retryFailedSubmissions e fails pol st)) = batches st"
  "emitted (snd (retryFailedSubmissions e fails pol st)) = emitted st"
  "uuidCalls (snd (retryFailedSubmissions e fails pol st)) = uuidCalls st"
  "stateFile (snd (retryFailedSubmissions e fails pol st)) = stateFile st"
  by (simp_all add: retryFailedSubmissions_def split: prod.splits)

lemma engineOk_perform:
  assumes "engineOk e st"
  shows "engineOk e (snd (perform e c st))"
proof (cases c)
  case (ScheduleBatchRun prof cfg)
  then show ?thesis using engineOk_schedule [OF assms, of prof cfg] by (simp add: case_prod_beta)
next
  case (ExecuteBatch prof rows)
  then show ?thesis using engineOk_execute [OF assms, of prof rows]
    by (auto split: prod.splits sum.splits)
next
  case (RetryFailedSubmissions fails pol)
  then show ?thesis using assms retry_frame [of e fails pol st]
    by (simp add: engineOk_def case_prod_beta)
next
  case (TrackBatchProgress bid)
  then show ?thesis using assms by simp
next
  case (HandleBatchCompletion bid sm)
  then show ?thesis using engineOk_complete [OF assms] by simp
qed

lemma engineOk_run:
  assumes "engineOk e st"
  shows "engineOk e (snd (run e calls st))"
  using assms
proof (induction calls arbitrary: st)
  case Nil
  then show ?case by simp
next
  case (Cons c cs)
  from Cons.IH [OF engineOk_perform [OF Cons.prems, of c]]
  show ?case by (simp add: case_prod_beta)
qed

lemma mapGet_key: "mapGet k m = Some i \<Longrightarrow> i < length m \<and> fst (m ! i) = k"
  unfolding mapGet_def using findIndex_Some [of "\<lambda>kv. fst kv = k" m i] by simp

lemma perform_state:
  "snd (perform e (ScheduleBatchRun prof cfg) st) = snd (scheduleBatchRun e prof cfg st)"
  "snd (perform e (ExecuteBatch prof rows) st) = snd (executeBatch e prof rows st)"
  "snd (perform e (RetryFailedSubmissions fails pol) st) = snd (retryFailedSubmissions e fails pol st)"
  "snd (perform e (TrackBatchProgress bid) st) = st"
  "snd (perform e (HandleBatchCompletion bid sm) st) = handleBatchCompletion e bid sm st"
  by (simp_all add: case_prod_beta split: sum.splits)

section \<open>The state file holds a sound map\<close>


lemma registryOk_mono: "registryOk e n m \<Longrightarrow> n \<le> k \<Longrightarrow> registryOk e k m"
  unfolding registryOk_def by (auto intro!: imageI)

lemma fileOk_persist:
  "registryOk e (uuidCalls st) (batches st) \<Longrightarrow> fileOk e st \<Longrightarrow> fileOk e (persistBatchState e st)"
  by (simp add: fileOk_def persistBatchState_def split: state_file.splits write_outcome.splits)

lemma fileOk_frame:
  "fileOk e (tick n st) = fileOk e st"
  "fileOk e (emit ev st) = fileOk e st"
  "fileOk e (mutate i f st) = fileOk e st"
  "fileOk e (st \<lparr> world := w \<rparr>) = fileOk e st"
  by (simp_all add: fileOk_def split: state_file.splits)

lemma registryOk_update:
  assumes ok: "registryOk e n m" and i: "i < length m" and s: "status b \<noteq> Scheduled"
  shows "registryOk e n (m [i := (fst (m ! i), b)])"
proof -
  have keys: "map fst (m [i := (fst (m ! i), b)]) = map fst m"
    using i by (simp add: map_update list_update_same_conv)
  have "\<forall>kv \<in> set (m [i := (fst (m ! i), b)]).
          status (snd kv) = Scheduled \<longrightarrow> progress (snd kv) = zeroProgress"
  proof
    fix kv assume "kv \<in> set (m [i := (fst (m ! i), b)])"
    then have "kv = (fst (m ! i), b) \<or> kv \<in> set m"
      using set_update_subset_insert [of m i "(fst (m ! i), b)"] by auto
    with ok s show "status (snd kv) = Scheduled \<longrightarrow> progress (snd kv) = zeroProgress"
      unfolding registryOk_def by auto
  qed
  moreover have "distinct (map fst (m [i := (fst (m ! i), b)]))"
    using ok keys by (simp add: registryOk_def)
  moreover have "fst ` set (m [i := (fst (m ! i), b)]) \<subseteq> uuidv4 e ` {..< n}"
  proof -
    have "fst ` set (m [i := (fst (m ! i), b)]) = set (map fst (m [i := (fst (m ! i), b)]))"
      by simp
    also have "\<dots> = fst ` set m" unfolding keys by simp
    finally show ?thesis using ok by (simp add: registryOk_def)
  qed
  ultimately show ?thesis unfolding registryOk_def by blast
qed

lemma rowDone_file:
  assumes "i < length (batches st)" and "status (batchAt st i) \<noteq> Scheduled"
      and "registryOk e (uuidCalls st) (batches st)" and "fileOk e st"
  shows "fileOk e (rowDone e i st)"
proof -
  let ?f = "\<lambda>b. b \<lparr> progress := (progress b) \<lparr> processed := processed (progress b) + 1 \<rparr>,
                       updatedAt := now e st 0 \<rparr>"
  let ?st1 = "tick 1 (mutate i ?f st)"
  have "registryOk e (uuidCalls ?st1) (batches ?st1)"
    using registryOk_update [OF assms(3) assms(1), of "?f (batchAt st i)"] assms(2)
    by (simp add: batchAt_def)
  moreover have "fileOk e ?st1" using assms(4) by (simp add: fileOk_frame)
  ultimately have "fileOk e (persistBatchState e ?st1)" by (rule fileOk_persist)
  then show ?thesis by (simp add: rowDone_def Let_def fileOk_frame)
qed

lemma executing_mutate:
  assumes "executing e i st" and "status (f (batchAt st i)) \<noteq> Scheduled"
  shows "executing e i (mutate i f st)"
  using assms registryOk_update [of e "uuidCalls st" "batches st" i "f (batchAt st i)"]
  by (simp add: executing_def fileOk_frame batchAt_def)

lemma executing_world: "executing e i (st \<lparr> world := w \<rparr>) = executing e i st"
  by (simp add: executing_def fileOk_frame batchAt_def)

lemma executing_rowDone:
  assumes "executing e i st"
  shows "executing e i (rowDone e i st)"
proof -
  from assms have i: "i < length (batches st)" and s: "status (batchAt st i) \<noteq> Scheduled"
    and r: "registryOk e (uuidCalls st) (batches st)" and f: "fileOk e st"
    by (simp_all add: executing_def)
  let ?f = "\<lambda>b. b \<lparr> progress := (progress b) \<lparr> processed := processed (progress b) + 1 \<rparr>,
                       updatedAt := now e st 0 \<rparr>"
  have b: "batches (rowDone e i st) = (batches st) [i := (fst (batches st ! i), ?f (batchAt st i))]"
    by (simp add: rowDone_def Let_def)
  have "registryOk e (uuidCalls st) (batches (rowDone e i st))"
    unfolding b using registryOk_update [OF r i, of "?f (batchAt st i)"] s by simp
  moreover have "status (batchAt (rowDone e i st) i) \<noteq> Scheduled"
    using i s by (simp add: batchAt_def b)
  moreover have "i < length (batches (rowDone e i st))" using i by (simp add: b)
  moreover have "uuidCalls (rowDone e i st) = uuidCalls st" by (simp add: rowDone_def Let_def)
  ultimately show ?thesis
    using rowDone_file [OF i s r f] by (simp add: executing_def)
qed

lemma executing_processRow:
  assumes "executing e i (snd (snd acc))"
  shows "executing e i (snd (snd (processRow e i acc r)))"
proof -
  obtain res fails st where acc: "acc = (res, fails, st)" by (cases acc)
  with assms have ex: "executing e i st" by simp
  then have i: "i < length (batches st)" and s: "status (batchAt st i) \<noteq> Scheduled"
    by (simp_all add: executing_def)
  obtain out w where pf: "processForm e (world st) (b_profile (batchAt st i)) r = (out, w)"
    by (cases "processForm e (world st) (b_profile (batchAt st i)) r")
  have step: "\<And>f. status (f (batchAt st i)) \<noteq> Scheduled \<Longrightarrow>
      executing e i (rowDone e i (mutate i f (st \<lparr> world := w \<rparr>)))"
  proof -
    fix f :: "batch \<Rightarrow> batch" assume "status (f (batchAt st i)) \<noteq> Scheduled"
    then have "executing e i (mutate i f (st \<lparr> world := w \<rparr>))"
      using executing_mutate [of e i "st \<lparr> world := w \<rparr>" f] ex
      by (simp add: executing_world)
    then show "executing e i (rowDone e i (mutate i f (st \<lparr> world := w \<rparr>)))"
      by (rule executing_rowDone)
  qed
  show ?thesis
  proof (cases out)
    case (Inl m)
    with acc pf show ?thesis using step s by (simp add: processRow_def)
  next
    case (Inr x)
    with acc pf show ?thesis using step s by (simp add: processRow_def)
  qed
qed


lemma executing_begin:
  assumes "registryOk e (uuidCalls st) (batches st)" and "fileOk e st" and "i < length (batches st)"
  shows "executing e i (beginBatch e i rows st)"
proof -
  let ?f = "\<lambda>b. b \<lparr> inputRows := rows, progress := (progress b) \<lparr> total := length rows \<rparr>,
                       status := Running, updatedAt := now e st 0 \<rparr>"
  let ?st1 = "tick 1 (mutate i ?f st)"
  have r: "registryOk e (uuidCalls ?st1) (batches ?st1)"
    using registryOk_update [OF assms(1) assms(3), of "?f (batchAt st i)"]
    by (simp add: batchAt_def)
  moreover have "fileOk e ?st1" using assms(2) by (simp add: fileOk_frame)
  ultimately have "fileOk e (persistBatchState e ?st1)" by (rule fileOk_persist)
  then have "fileOk e (beginBatch e i rows st)" by (simp add: beginBatch_def Let_def fileOk_frame)
  moreover have "batches (beginBatch e i rows st) = batches ?st1"
    and "uuidCalls (beginBatch e i rows st) = uuidCalls ?st1"
    by (simp_all add: beginBatch_def Let_def)
  moreover have "status (batchAt (beginBatch e i rows st) i) \<noteq> Scheduled"
    by (simp add: beginBatch_after [OF assms(3)])
  ultimately show ?thesis using r assms(3) by (simp add: executing_def)
qed

lemma finish_file:
  assumes "executing e i st"
  shows "fileOk e (finishBatch e i rows fails st)"
proof -
  from assms have i: "i < length (batches st)"
    and r: "registryOk e (uuidCalls st) (batches st)" and f: "fileOk e st"
    by (simp_all add: executing_def)
  let ?f = "\<lambda>b. b \<lparr> failures := fails,
                       status := (if length fails = 0 then Completed else Failed),
                       updatedAt := now e st 0,
                       summary := Some \<lparr> sm_total = length rows,
                                         sm_succeeded = succeeded (progress (batchAt st i)),
                                         sm_failed = failed (progress (batchAt st i)),
                                         completedAt = now e st 1 \<rparr> \<rparr>"
  let ?st1 = "tick 2 (mutate i ?f st)"
  have "registryOk e (uuidCalls ?st1) (batches ?st1)"
    using registryOk_update [OF r i, of "?f (batchAt st i)"] by (simp add: batchAt_def)
  moreover have "fileOk e ?st1" using f by (simp add: fileOk_frame)
  ultimately have "fileOk e (persistBatchState e ?st1)" by (rule fileOk_persist)
  then show ?thesis by (simp add: finishBatch_def Let_def fileOk_frame)
qed


lemma registryOk_schedule:
  assumes "registryOk e (uuidCalls st) (batches st)"
  shows "registryOk e (uuidCalls (snd (scheduleBatchRun e prof cfg st)))
           (batches (snd (scheduleBatchRun e prof cfg st)))"
proof -
  let ?k = "uuidv4 e (uuidCalls st)"
  let ?st1 = "snd (scheduleBatchRun e prof cfg st)"
  have fresh: "status (newBatch e st ?k prof cfg) = Scheduled"
    "progress (newBatch e st ?k prof cfg) = zeroProgress"
    by (simp_all add: newBatch_def)
  have "\<forall>kv \<in> set (batches ?st1). status (snd kv) = Scheduled \<longrightarrow> progress (snd kv) = zeroProgress"
    using assms fresh mapSet_values [of _ ?k "newBatch e st ?k prof cfg" "batches st"]
    unfolding registryOk_def scheduleBatchRun_after by fastforce
  moreover have "distinct (map fst (batches ?st1))"
    using assms by (simp add: registryOk_def scheduleBatchRun_after mapSet_keys)
  moreover have "fst ` set (batches ?st1) \<subseteq> uuidv4 e ` {..< uuidCalls ?st1}"
  proof -
    have "set (map fst (batches ?st1)) \<subseteq> insert ?k (set (map fst (batches st)))"
      unfolding scheduleBatchRun_after mapSet_keys by auto
    moreover have "set (map fst (batches st)) \<subseteq> uuidv4 e ` {..< uuidCalls st}"
      using assms by (simp add: registryOk_def)
    ultimately show ?thesis
      unfolding scheduleBatchRun_after(4) lessThan_Suc by auto
  qed
  ultimately show ?thesis unfolding registryOk_def by blast
qed

lemma fileOk_schedule:
  assumes ok: "registryOk e (uuidCalls st) (batches st)" and fok: "fileOk e st"
  shows "fileOk e (snd (scheduleBatchRun e prof cfg st))"
proof -
  let ?k = "uuidv4 e (uuidCalls st)"
  let ?st1 = "(tick 2 (st \<lparr> uuidCalls := Suc (uuidCalls st) \<rparr>))
                \<lparr> batches := mapSet ?k (newBatch e st ?k prof cfg) (batches st) \<rparr>"
  have st1: "snd (scheduleBatchRun e prof cfg st) = persistBatchState e ?st1"
    by (simp add: scheduleBatchRun_def Let_def tick_def)
  have "registryOk e (uuidCalls (persistBatchState e ?st1)) (batches (persistBatchState e ?st1))"
    using registryOk_schedule [OF ok, of prof cfg] unfolding st1 .
  then have r: "registryOk e (uuidCalls ?st1) (batches ?st1)" by simp
  have "fileOk e ?st1"
    using fok registryOk_mono [of e "uuidCalls st" _ "Suc (uuidCalls st)"]
    by (auto simp: fileOk_def tick_def split: state_file.splits)
  with r show ?thesis unfolding st1 by (rule fileOk_persist)
qed

lemma fileOk_complete:
  assumes ok: "registryOk e (uuidCalls st) (batches st)" and fok: "fileOk e st"
  shows "fileOk e (handleBatchCompletion e bid sm st)"
proof (cases "mapGet bid (batches st)")
  case None
  then show ?thesis using fok by (simp add: handleBatchCompletion_def)
next
  case (Some i)
  from mapGet_key [OF Some] have i: "i < length (batches st)" by simp
  let ?f = "\<lambda>b. b \<lparr> status := Completed, summary := sm, updatedAt := now e st 0 \<rparr>"
  let ?st1 = "tick 1 (mutate i ?f st)"
  have "registryOk e (uuidCalls ?st1) (batches ?st1)"
    using registryOk_update [OF ok i, of "?f (batchAt st i)"]
    by (simp add: batchAt_def)
  moreover have "fileOk e ?st1" using fok by (simp add: fileOk_frame)
  ultimately have "fileOk e (persistBatchState e ?st1)" by (rule fileOk_persist)
  then show ?thesis using Some by (simp add: handleBatchCompletion_def Let_def fileOk_frame)
qed



lemma load_distinct:
  assumes "distinct (map fst m)"
  shows "foldl (\<lambda>acc kv. mapSet (fst kv) (snd kv) acc) [] m = m"
proof -
  have "distinct (map fst (pre @ m)) \<Longrightarrow>
        foldl (\<lambda>acc kv. mapSet (fst kv) (snd kv) acc) pre m = pre @ m" for pre
  proof (induction m arbitrary: pre)
    case Nil
    show ?case by simp
  next
    case (Cons kv m)
    from Cons.prems have "fst kv \<notin> fst ` set pre" by auto
    then have "mapSet (fst kv) (snd kv) pre = pre @ [kv]" by (simp add: mapSet_fresh)
    moreover from Cons.prems have "distinct (map fst ((pre @ [kv]) @ m))" by simp
    ultimately show ?case using Cons.IH [of "pre @ [kv]"] by simp
  qed
  from this [of "[]"] assms show ?thesis by simp
qed

lemma restart_loads:
  assumes "fileOk e st"
  shows "batches (restart st) = (case stateFile st of Entries m \<Rightarrow> m | _ \<Rightarrow> [])"
    and "emitted (restart st) = []"
    and "uuidCalls (restart st) = uuidCalls st"
    and "stateFile (restart st) = stateFile st"
proof -
  have "batches (restart st) = (case stateFile st of Entries m \<Rightarrow> m | _ \<Rightarrow> [])"
  proof (cases "stateFile st")
    case (Entries m)
    with assms have "registryOk e (uuidCalls st) m" by (simp add: fileOk_def)
    then have "foldl (\<lambda>acc kv. mapSet (fst kv) (snd kv) acc) [] m = m"
      by (intro load_distinct) (simp add: registryOk_def)
    with Entries show ?thesis by (simp add: restart_def loadBatchState_def)
  qed (simp_all add: restart_def loadBatchState_def)
  then show "batches (restart st) = (case stateFile st of Entries m \<Rightarrow> m | _ \<Rightarrow> [])" .
  show "emitted (restart st) = []" "uuidCalls (restart st) = uuidCalls st"
    "stateFile (restart st) = stateFile st"
    by (simp_all add: restart_def loadBatchState_def split: state_file.splits)
qed

lemma restart_registry:
  assumes "fileOk e st"
  shows "registryOk e (uuidCalls (restart st)) (batches (restart st))" and "fileOk e (restart st)"
proof -
  note l = restart_loads [OF assms]
  show "registryOk e (uuidCalls (restart st)) (batches (restart st))"
    unfolding l using assms by (auto simp: fileOk_def registryOk_def split: state_file.splits)
  show "fileOk e (restart st)"
    using assms by (simp add: fileOk_def l split: state_file.splits)
qed





section \<open>Batch accounting\<close>

lemma scheduled_once:
  "batches (snd (run e [ScheduleBatchRun prof cfg] startup)) =
     [(uuidv4 e 0, newBatch e startup (uuidv4 e 0) prof cfg)]"
  by (simp add: case_prod_beta scheduleBatchRun_after mapSet_def startup_def)

lemma newBatch_fields [simp]:
  "b_id (newBatch e st k prof cfg) = k"
  "b_profile (newBatch e st k prof cfg) = prof"
  "status (newBatch e st k prof cfg) = Scheduled"
  "progress (newBatch e st k prof cfg) = zeroProgress"
  "createdAt (newBatch e st k prof cfg) = dateNow e (clockReads st)"
  by (simp_all add: newBatch_def now_def)



section \<open>Retry engine\<close>

lemma retryOne_shift:
  "retryOne e m (R, F, w) x =
     (case retryOne e m ([], [], w) x of (R1, F1, w1) \<Rightarrow> (R @ R1, F @ F1, w1))"
  by (simp add: retryOne_def split: prod.splits option.splits)

lemma retry_fold_shift:
  "foldl (retryOne e m) (R, F, w) fs =
     (case foldl (retryOne e m) ([], [], w) fs of (R1, F1, w1) \<Rightarrow> (R @ R1, F @ F1, w1))"
proof (induction fs arbitrary: R F w)
  case Nil
  show ?case by simp
next
  case (Cons x xs)
  obtain R1 F1 w1 where one: "retryOne e m ([], [], w) x = (R1, F1, w1)"
    by (cases "retryOne e m ([], [], w) x")
  have "retryOne e m (R, F, w) x = (R @ R1, F @ F1, w1)"
    using retryOne_shift [of e m R F w x] one by simp
  then show ?case
    using Cons.IH [of "R @ R1" "F @ F1" w1] Cons.IH [of R1 F1 w1] one
    by (simp split: prod.splits)
qed

lemma retry_fold_length:
  "foldl (retryOne e m) (R, F, w) fs = (R1, F1, w1) \<Longrightarrow>
   length R1 + length F1 = length R + length F + length fs"
proof (induction fs arbitrary: R F w)
  case Nil
  then show ?case by simp
next
  case (Cons x xs)
  obtain R2 F2 w2 where one: "retryOne e m (R, F, w) x = (R2, F2, w2)"
    by (cases "retryOne e m (R, F, w) x")
  then have "length R2 + length F2 = length R + length F + 1"
    by (auto simp: retryOne_def split: prod.splits option.splits)
  with Cons one show ?case by fastforce
qed

lemma retryLoop_exhaust:
  assumes "processForm e w (profile f) (row f) = (Inl m1, w1)"
      and "processForm e w1 (profile f) (row f) = (Inl m2, w2)"
      and "processForm e w2 (profile f) (row f) = (Inl m3, w3)"
  shows "retryLoop e 3 f 1 err w = (None, 4, m3, w3)"
  using assms by (simp add: retryLoop.simps)

text \<open>
  C3: with \<open>maxAttempts = 3\<close>, a failure record \<open>f\<close> with \<open>attempt = 1\<close> whose processor
  rejects on every invocation is tried three times; the result of
  \<open>retryFailedSubmissions\<close> on a list holding \<open>f\<close> is the result for the records before
  \<open>f\<close>, then \<open>f\<close> in \<open>failures\<close> with \<open>attempt = 4\<close> and the message of the last
  rejection, then the result for the records after \<open>f\<close>. Nothing of \<open>f\<close> enters
  \<open>succeeded\<close>, and no record is lost.
\<close>

theorem retry_exhaustion:
  assumes pol: "orDefault (maxAttempts pol) 3 = 3"
      and att: "orDefault (attempt f) 1 = 1"
      and rejects: "\<forall>w. isl (fst (processForm e w (profile f) (row f)))"
      and before: "retryFailedSubmissions e before pol st = (r1, st1)"
      and try1: "processForm e (world st1) (profile f) (row f) = (o1, w1)"
      and try2: "processForm e w1 (profile f) (row f) = (o2, w2)"
      and try3: "processForm e w2 (profile f) (row f) = (o3, w3)"
      and after: "retryFailedSubmissions e after pol (st1 \<lparr> world := w3 \<rparr>) = (r2, st2)"
  shows "retryFailedSubmissions e (before @ f # after) pol st =
           (\<lparr> retry_succeeded = retry_succeeded r1 @ retry_succeeded r2,
              retry_failures = retry_failures r1 @
                f \<lparr> error := projl o3, attempt := Some 4 \<rparr> # retry_failures r2 \<rparr>, st2) \<and>
         length (retry_succeeded r1 @ retry_succeeded r2) +
           length (retry_failures r1 @ f \<lparr> error := projl o3, attempt := Some 4 \<rparr> # retry_failures r2) =
           length (before @ f # after)"
proof -
  obtain R1 F1 v1 where fb: "foldl (retryOne e 3) ([], [], world st) before = (R1, F1, v1)"
    by (cases "foldl (retryOne e 3) ([], [], world st) before")
  with before pol have r1: "r1 = \<lparr> retry_succeeded = R1, retry_failures = F1 \<rparr>"
    and st1: "st1 = st \<lparr> world := v1 \<rparr>"
    by (simp_all add: retryFailedSubmissions_def)
  obtain R2 F2 v2 where fa: "foldl (retryOne e 3) ([], [], w3) after = (R2, F2, v2)"
    by (cases "foldl (retryOne e 3) ([], [], w3) after")
  with after pol st1 have r2: "r2 = \<lparr> retry_succeeded = R2, retry_failures = F2 \<rparr>"
    and st2: "st2 = st \<lparr> world := v2 \<rparr>"
    by (simp_all add: retryFailedSubmissions_def)
  from rejects try1 try2 try3 obtain m1 m2 m3 where
    o: "o1 = Inl m1" "o2 = Inl m2" "o3 = Inl m3"
    by (metis fst_conv isl_def)
  have loop: "retryLoop e 3 f 1 (error f) v1 = (None, 4, m3, w3)"
    using retryLoop_exhaust [of e v1 f m1 w1 m2 w2 m3 w3] try1 try2 try3 o st1 by simp
  have one: "retryOne e 3 (R1, F1, v1) f = (R1, F1 @ [f \<lparr> error := m3, attempt := Some 4 \<rparr>], w3)"
    using loop att by (simp add: retryOne_def)
  have "foldl (retryOne e 3) ([], [], world st) (before @ f # after) =
          (R1 @ R2, (F1 @ [f \<lparr> error := m3, attempt := Some 4 \<rparr>]) @ F2, v2)"
    using fb one fa
      retry_fold_shift [of e 3 R1 "F1 @ [f \<lparr> error := m3, attempt := Some 4 \<rparr>]" w3 after]
    by simp
  then have whole: "retryFailedSubmissions e (before @ f # after) pol st =
           (\<lparr> retry_succeeded = retry_succeeded r1 @ retry_succeeded r2,
              retry_failures = retry_failures r1 @
                f \<lparr> error := projl o3, attempt := Some 4 \<rparr> # retry_failures r2 \<rparr>, st2)"
    using pol r1 r2 st2 o by (simp add: retryFailedSubmissions_def)
  have "length R1 + length F1 = length before"
    using retry_fold_length [OF fb] by simp
  moreover have "length R2 + length F2 = length after"
    using retry_fold_length [OF fa] by simp
  ultimately have "length (retry_succeeded r1 @ retry_succeeded r2) +
           length (retry_failures r1 @ f \<lparr> error := projl o3, attempt := Some 4 \<rparr> # retry_failures r2) =
           length (before @ f # after)"
    using r1 r2 by simp
  with whole show ?thesis by blast
qed

lemma flaky_rowA:
  "processForm flakyEnv w (profile failedRowA) (row failedRowA) = (Inl (''error at '' @ showNat w), w + 1)"
  by (simp add: flakyEnv_def flakyProcessForm_def failedRowA_def)

lemma flaky_rowB_retry:
  "retryFailedSubmissions flakyEnv [failedRowB] defaultPolicy startup =
     (\<lparr> retry_succeeded = [\<lparr> sub_profile = ''p1'', sub_row = ''rowB'', sub_status = ''success'' \<rparr>],
        retry_failures = [] \<rparr>, startup \<lparr> world := 1 \<rparr>)"
  by (simp add: retryFailedSubmissions_def retryOne_def retryLoop.simps flakyEnv_def
        flakyProcessForm_def failedRowB_def defaultPolicy_def orDefault_def startup_def)

lemma retry_nothing:
  "retryFailedSubmissions e [] pol st = (\<lparr> retry_succeeded = [], retry_failures = [] \<rparr>, st)"
  by (simp add: retryFailedSubmissions_def)

theorem retry_exhaustion_witness:
  "retryFailedSubmissions flakyEnv ([failedRowB] @ failedRowA # []) defaultPolicy startup =
     (\<lparr> retry_succeeded = [\<lparr> sub_profile = ''p1'', sub_row = ''rowB'', sub_status = ''success'' \<rparr>],
        retry_failures = [failedRowA \<lparr> error := ''error at 3'', attempt := Some 4 \<rparr>] \<rparr>,
      startup \<lparr> world := 4 \<rparr>)"
proof -
  have pol: "orDefault (maxAttempts defaultPolicy) 3 = 3"
    by (simp add: defaultPolicy_def orDefault_def)
  have att: "orDefault (attempt failedRowA) 1 = 1"
    by (simp add: failedRowA_def orDefault_def)
  have rejects: "\<forall>w. isl (fst (processForm flakyEnv w (profile failedRowA) (row failedRowA)))"
    by (simp add: flaky_rowA)
  have try1: "processForm flakyEnv (world (startup \<lparr> world := 1 \<rparr>)) (profile failedRowA) (row failedRowA) =
                (Inl ''error at 1'', 2)"
    by (simp add: flaky_rowA)
  have try2: "processForm flakyEnv 2 (profile failedRowA) (row failedRowA) = (Inl ''error at 2'', 3)"
    by (simp add: flaky_rowA)
  have try3: "processForm flakyEnv 3 (profile failedRowA) (row failedRowA) = (Inl ''error at 3'', 4)"
    by (simp add: flaky_rowA)
  have after: "retryFailedSubmissions flakyEnv [] defaultPolicy (startup \<lparr> world := 1 \<rparr> \<lparr> world := 4 \<rparr>) =
                 (\<lparr> retry_succeeded = [], retry_failures = [] \<rparr>, startup \<lparr> world := 4 \<rparr>)"
    by (simp add: retry_nothing)
  from retry_exhaustion [OF pol att rejects flaky_rowB_retry try1 try2 try3 after]
  show ?thesis by simp
qed

section \<open>Which batch executeBatch takes\<close>

lemma findScheduled_first:
  assumes "i < length (batches st)"
      and "b_profile (batchAt st i) = prof" and "status (batchAt st i) = Scheduled"
      and "\<forall>j < i. \<not> (b_profile (batchAt st j) = prof \<and> status (batchAt st j) = Scheduled)"
  shows "findScheduled prof (batches st) = Some i"
  unfolding findScheduled_def
  using assms by (intro findIndex_first) (simp_all add: batchAt_def)

lemma findScheduled_none:
  assumes "\<forall>kv \<in> set (batches st). \<not> (b_profile (snd kv) = prof \<and> status (snd kv) = Scheduled)"
  shows "findScheduled prof (batches st) = None"
  unfolding findScheduled_def findIndex_None using assms by blast

lemma env_simps [simp]:
  "uuidv4 luckyEnv = (\<lambda>k. k)" "dateNow luckyEnv = (\<lambda>k. int k)" "writeFileSync luckyEnv = (\<lambda>k. Written)"
  "uuidv4 unluckyEnv = (\<lambda>k. k)" "dateNow unluckyEnv = (\<lambda>k. int k)" "writeFileSync unluckyEnv = (\<lambda>k. Written)"
  "uuidv4 diskFullEnv = (\<lambda>k. k)" "writeFileSync diskFullEnv = (\<lambda>k. Torn)"
  "uuidv4 readOnlyEnv = (\<lambda>k. k)" "writeFileSync readOnlyEnv = (\<lambda>k. Refused)"
  "uuidv4 oneWriteEnv = (\<lambda>k. k)" "writeFileSync oneWriteEnv = (\<lambda>k. if k = 0 then Written else Refused)"
  "uuidv4 fillingDiskEnv = (\<lambda>k. k)" "writeFileSync fillingDiskEnv = (\<lambda>k. if k = 0 then Written else Torn)"
  by (simp_all add: luckyEnv_def unluckyEnv_def diskFullEnv_def readOnlyEnv_def oneWriteEnv_def
        fillingDiskEnv_def envWith_def)

lemma twoScheduled_batches:
  "length (batches twoScheduled) = 2"
  "fst (batches twoScheduled ! 0) = 0" "fst (batches twoScheduled ! Suc 0) = Suc 0"
  "b_id (batchAt twoScheduled 0) = 0" "b_id (batchAt twoScheduled (Suc 0)) = Suc 0"
  "b_profile (batchAt twoScheduled 0) = ''p1''" "b_profile (batchAt twoScheduled (Suc 0)) = ''p1''"
  "batchConfig (batchAt twoScheduled 0) = ''first''"
  "batchConfig (batchAt twoScheduled (Suc 0)) = ''second''"
  "status (batchAt twoScheduled 0) = Scheduled" "status (batchAt twoScheduled (Suc 0)) = Scheduled"
  "createdAt (batchAt twoScheduled 0) = 0" "createdAt (batchAt twoScheduled (Suc 0)) = 2"
  by (simp_all add: twoScheduled_def case_prod_beta scheduleBatchRun_after mapSet_def startup_def
        batchAt_def newBatch_def now_def scheduleBatchRun_def Let_def tick_def)

text \<open>
  C4 as stated fails: two batches are scheduled for the profile \<open>p1\<close>, the one with
  identifier 0 created first and the one with identifier 1 created last; \<open>executeBatch\<close>
  executes the first and leaves the last scheduled.
\<close>

theorem executeBatch_not_most_recent:
  "b_id (batchAt twoScheduled 0) = 0 \<and> b_id (batchAt twoScheduled 1) = 1 \<and>
   createdAt (batchAt twoScheduled 0) < createdAt (batchAt twoScheduled 1) \<and>
   b_profile (batchAt twoScheduled 0) = ''p1'' \<and> b_profile (batchAt twoScheduled 1) = ''p1'' \<and>
   status (batchAt twoScheduled 0) = Scheduled \<and> status (batchAt twoScheduled 1) = Scheduled \<and>
   map_sum id batchId (fst (executeBatch luckyEnv ''p1'' [''rowA''] twoScheduled)) = Inr 0 \<and>
   status (batchAt (snd (executeBatch luckyEnv ''p1'' [''rowA''] twoScheduled)) 0) \<noteq> Scheduled \<and>
   status (batchAt (snd (executeBatch luckyEnv ''p1'' [''rowA''] twoScheduled)) 1) = Scheduled"
proof -
  have found: "findScheduled ''p1'' (batches twoScheduled) = Some 0"
    by (rule findScheduled_first) (simp_all add: twoScheduled_batches)
  from executeBatch_effect [OF found, of luckyEnv "[''rowA'']"] obtain res fails st1 where
    run: "executeBatch luckyEnv ''p1'' [''rowA''] twoScheduled =
       (Inr \<lparr> batchId = b_id (batchAt twoScheduled 0), results = res, exec_failures = fails \<rparr>, st1)"
    and others: "\<forall>j. j \<noteq> 0 \<longrightarrow> batches st1 ! j = batches twoScheduled ! j"
    and stat: "status (batchAt st1 0) = (if fails = [] then Completed else Failed)"
    by metis
  from others have "batchAt st1 1 = batchAt twoScheduled 1"
    by (simp add: batchAt_def)
  with run stat show ?thesis by (simp add: twoScheduled_batches)
qed

text \<open>
  C4, amended: \<open>executeBatch\<close> takes the first batch, in the insertion order of the
  \<open>batches\<close> map (the order in which the batches were scheduled), that belongs to the
  profile and is still scheduled: that batch gets the rows and leaves the scheduled state,
  its identifier is returned, and every other batch, a later scheduled batch of the same
  profile included, is left as it was. When no batch of the profile is scheduled the call
  rejects with \<open>No scheduled batch for this profile.\<close> and the state is unchanged: no row
  is processed.
\<close>

theorem executeBatch_takes_first:
  "((\<forall>kv \<in> set (batches st). \<not> (b_profile (snd kv) = prof \<and> status (snd kv) = Scheduled)) \<longrightarrow>
      executeBatch e prof rows st = (Inl ''No scheduled batch for this profile.'', st)) \<and>
   (\<forall>i. i < length (batches st) \<and>
        b_profile (batchAt st i) = prof \<and> status (batchAt st i) = Scheduled \<and>
        (\<forall>j < i. \<not> (b_profile (batchAt st j) = prof \<and> status (batchAt st j) = Scheduled)) \<longrightarrow>
        (\<exists>r st1. executeBatch e prof rows st = (Inr r, st1) \<and>
                  batchId r = b_id (batchAt st i) \<and>
                  length (results r) + length (exec_failures r) = length rows \<and>
                  inputRows (batchAt st1 i) = rows \<and>
                  status (batchAt st1 i) \<noteq> Scheduled \<and>
                  length (batches st1) = length (batches st) \<and>
                  (\<forall>j. j \<noteq> i \<longrightarrow> batches st1 ! j = batches st ! j)))"
proof (intro conjI impI allI)
  assume "\<forall>kv \<in> set (batches st). \<not> (b_profile (snd kv) = prof \<and> status (snd kv) = Scheduled)"
  then have "findScheduled prof (batches st) = None" by (rule findScheduled_none)
  then show "executeBatch e prof rows st = (Inl ''No scheduled batch for this profile.'', st)"
    by (simp add: executeBatch_def i18n_def)
next
  fix i
  assume a: "i < length (batches st) \<and>
        b_profile (batchAt st i) = prof \<and> status (batchAt st i) = Scheduled \<and>
        (\<forall>j < i. \<not> (b_profile (batchAt st j) = prof \<and> status (batchAt st j) = Scheduled))"
  then have found: "findScheduled prof (batches st) = Some i"
    by (intro findScheduled_first) simp_all
  from executeBatch_effect [OF found, of e rows] obtain res fails st1 where
    run: "executeBatch e prof rows st =
       (Inr \<lparr> batchId = b_id (batchAt st i), results = res, exec_failures = fails \<rparr>, st1)"
    and len: "length (batches st1) = length (batches st)"
    and others: "\<forall>j. j \<noteq> i \<longrightarrow> batches st1 ! j = batches st ! j"
    and stat: "status (batchAt st1 i) = (if fails = [] then Completed else Failed)"
    and rows: "inputRows (batchAt st1 i) = rows"
    and n: "length res + length fails = length rows"
    by metis
  show "\<exists>r st1. executeBatch e prof rows st = (Inr r, st1) \<and>
                  batchId r = b_id (batchAt st i) \<and>
                  length (results r) + length (exec_failures r) = length rows \<and>
                  inputRows (batchAt st1 i) = rows \<and>
                  status (batchAt st1 i) \<noteq> Scheduled \<and>
                  length (batches st1) = length (batches st) \<and>
                  (\<forall>j. j \<noteq> i \<longrightarrow> batches st1 ! j = batches st ! j)"
    apply (rule exI [of _ "\<lparr> batchId = b_id (batchAt st i), results = res, exec_failures = fails \<rparr>"])
    apply (rule exI [of _ st1])
    using run len others stat rows n by simp
qed

theorem executeBatch_takes_first_witness:
  "executeBatch luckyEnv ''p1'' [''rowA''] startup =
     (Inl ''No scheduled batch for this profile.'', startup) \<and>
   (\<exists>r st1. executeBatch luckyEnv ''p1'' [''rowA''] twoScheduled = (Inr r, st1) \<and>
             batchId r = 0 \<and> inputRows (batchAt st1 0) = [''rowA''] \<and>
             batches st1 ! 1 = batches twoScheduled ! 1)"
proof -
  note inst = executeBatch_takes_first [of startup "''p1''" luckyEnv "[''rowA'']"]
    executeBatch_takes_first [of twoScheduled "''p1''" luckyEnv "[''rowA'']"]
  have none: "\<forall>kv \<in> set (batches startup). \<not> (b_profile (snd kv) = ''p1'' \<and> status (snd kv) = Scheduled)"
    by (simp add: startup_def)
  have first: "0 < length (batches twoScheduled) \<and>
        b_profile (batchAt twoScheduled 0) = ''p1'' \<and> status (batchAt twoScheduled 0) = Scheduled \<and>
        (\<forall>j < 0. \<not> (b_profile (batchAt twoScheduled j) = ''p1'' \<and> status (batchAt twoScheduled j) = Scheduled))"
    by (simp add: twoScheduled_batches)
  from inst(1) none have a: "executeBatch luckyEnv ''p1'' [''rowA''] startup =
     (Inl ''No scheduled batch for this profile.'', startup)" by blast
  from inst(2) first obtain r st1 where
    "executeBatch luckyEnv ''p1'' [''rowA''] twoScheduled = (Inr r, st1)"
    "batchId r = b_id (batchAt twoScheduled 0)" "inputRows (batchAt st1 0) = [''rowA'']"
    "\<forall>j. j \<noteq> 0 \<longrightarrow> batches st1 ! j = batches twoScheduled ! j"
    by blast
  then have "\<exists>r st1. executeBatch luckyEnv ''p1'' [''rowA''] twoScheduled = (Inr r, st1) \<and>
             batchId r = 0 \<and> inputRows (batchAt st1 0) = [''rowA''] \<and>
             batches st1 ! 1 = batches twoScheduled ! 1"
    by (simp add: twoScheduled_batches)
  with a show ?thesis by blast
qed

section \<open>Persistence when a batch is scheduled\<close>

lemma persist_file:
  "stateFile (persistBatchState e st) =
     (case writeFileSync e (writes st) of
        Written \<Rightarrow> Entries (batches st) | Refused \<Rightarrow> stateFile st | Torn \<Rightarrow> Unparsable
      | Unclosed \<Rightarrow> Entries (batches st))"
  "console (persistBatchState e st) =
     (case writeFileSync e (writes st) of
        Written \<Rightarrow> console st
      | _ \<Rightarrow> console st @ [''Failed to persist batch state:''])"
  by (simp_all add: persistBatchState_def split: write_outcome.splits)

lemma schedule_file:
  "stateFile (snd (scheduleBatchRun e prof cfg st)) =
     (case writeFileSync e (writes st) of
        Written \<Rightarrow> Entries (batches (snd (scheduleBatchRun e prof cfg st)))
      | Refused \<Rightarrow> stateFile st
      | Torn \<Rightarrow> Unparsable
      | Unclosed \<Rightarrow> Entries (batches (snd (scheduleBatchRun e prof cfg st))))"
  "console (snd (scheduleBatchRun e prof cfg st)) =
     (case writeFileSync e (writes st) of
        Written \<Rightarrow> console st
      | _ \<Rightarrow> console st @ [''Failed to persist batch state:''])"
  "writes (snd (scheduleBatchRun e prof cfg st)) = Suc (writes st)"
  by (simp_all add: scheduleBatchRun_def Let_def tick_def persist_file split: write_outcome.splits)

lemma restart_unreadable:
  "stateFile st = Unparsable \<Longrightarrow> batches (restart st) = []"
  "stateFile st = Absent \<Longrightarrow> batches (restart st) = []"
  by (simp_all add: restart_def loadBatchState_def)

text \<open>
  C9 as stated fails. With a disk that is full, \<open>scheduleBatchRun\<close> returns a batch
  identifier all the same; the batch is in the map in memory, the error is on the console
  only, the state file is left truncated, and a process restarted on that disk has no
  batch. With a directory that cannot be written it returns the identifier as well, and no
  state file comes to exist. And on a disk that takes the first write and is full at the
  second, the second call returns its identifier while the state file, which held the first
  batch, is left truncated: a process restarted there has neither batch.
\<close>

theorem scheduleBatchRun_swallows_write_error:
  "writeFileSync diskFullEnv (writes startup) = Torn \<and>
   fst (scheduleBatchRun diskFullEnv ''p1'' ''cfg'' startup) = 0 \<and>
   map fst (batches (snd (scheduleBatchRun diskFullEnv ''p1'' ''cfg'' startup))) = [0] \<and>
   stateFile (snd (scheduleBatchRun diskFullEnv ''p1'' ''cfg'' startup)) = Unparsable \<and>
   console (snd (scheduleBatchRun diskFullEnv ''p1'' ''cfg'' startup)) =
     [''Failed to persist batch state:''] \<and>
   batches (restart (snd (scheduleBatchRun diskFullEnv ''p1'' ''cfg'' startup))) = [] \<and>
   writeFileSync readOnlyEnv (writes startup) = Refused \<and>
   fst (scheduleBatchRun readOnlyEnv ''p1'' ''cfg'' startup) = 0 \<and>
   map fst (batches (snd (scheduleBatchRun readOnlyEnv ''p1'' ''cfg'' startup))) = [0] \<and>
   stateFile (snd (scheduleBatchRun readOnlyEnv ''p1'' ''cfg'' startup)) = Absent \<and>
   console (snd (scheduleBatchRun readOnlyEnv ''p1'' ''cfg'' startup)) =
     [''Failed to persist batch state:''] \<and>
   batches (restart (snd (scheduleBatchRun readOnlyEnv ''p1'' ''cfg'' startup))) = [] \<and>
   map fst (batches (restart (snd (scheduleBatchRun fillingDiskEnv ''p1'' ''cfg'' startup)))) = [0] \<and>
   fst (scheduleBatchRun fillingDiskEnv ''p1'' ''more''
          (snd (scheduleBatchRun fillingDiskEnv ''p1'' ''cfg'' startup))) = 1 \<and>
   map fst (batches (snd (scheduleBatchRun fillingDiskEnv ''p1'' ''more''
          (snd (scheduleBatchRun fillingDiskEnv ''p1'' ''cfg'' startup))))) = [0, 1] \<and>
   stateFile (snd (scheduleBatchRun fillingDiskEnv ''p1'' ''more''
          (snd (scheduleBatchRun fillingDiskEnv ''p1'' ''cfg'' startup)))) = Unparsable \<and>
   batches (restart (snd (scheduleBatchRun fillingDiskEnv ''p1'' ''more''
          (snd (scheduleBatchRun fillingDiskEnv ''p1'' ''cfg'' startup))))) = []"
proof -
  have w: "writes startup = 0" "console startup = []" "stateFile startup = Absent"
    "batches startup = []" "uuidCalls startup = 0"
    by (simp_all add: startup_def)
  let ?full = "snd (scheduleBatchRun diskFullEnv ''p1'' ''cfg'' startup)"
  let ?ro = "snd (scheduleBatchRun readOnlyEnv ''p1'' ''cfg'' startup)"
  let ?one = "snd (scheduleBatchRun fillingDiskEnv ''p1'' ''cfg'' startup)"
  let ?two = "snd (scheduleBatchRun fillingDiskEnv ''p1'' ''more'' ?one)"
  have full: "stateFile ?full = Unparsable" "console ?full = [''Failed to persist batch state:'']"
    by (simp_all add: schedule_file w)
  have ro: "stateFile ?ro = Absent" "console ?ro = [''Failed to persist batch state:'']"
    by (simp_all add: schedule_file w)
  have ids: "fst (scheduleBatchRun diskFullEnv ''p1'' ''cfg'' startup) = 0"
    "fst (scheduleBatchRun readOnlyEnv ''p1'' ''cfg'' startup) = 0"
    "fst (scheduleBatchRun fillingDiskEnv ''p1'' ''more'' ?one) = 1"
    by (simp_all add: scheduleBatchRun_after w)
  have maps: "map fst (batches ?full) = [0]" "map fst (batches ?ro) = [0]"
    "map fst (batches ?one) = [0]" "map fst (batches ?two) = [0, 1]"
    by (simp_all add: scheduleBatchRun_after w mapSet_def)
  have one: "stateFile ?one = Entries (batches ?one)"
    by (simp add: schedule_file w)
  have "fileOk fillingDiskEnv ?one"
    using fileOk_schedule [of fillingDiskEnv startup "''p1''" "''cfg''"]
    by (simp add: fileOk_def registryOk_def w)
  from restart_loads(1) [OF this] one have again: "batches (restart ?one) = batches ?one"
    by simp
  have two: "stateFile ?two = Unparsable"
    by (simp add: schedule_file w)
  have outcomes: "writeFileSync diskFullEnv (writes startup) = Torn"
    "writeFileSync readOnlyEnv (writes startup) = Refused"
    by simp_all
  from outcomes ids maps full ro again two
    restart_unreadable(1) [OF full(1)] restart_unreadable(2) [OF ro(1)] restart_unreadable(1) [OF two]
  show ?thesis by simp
qed

text \<open>
  C9, amended: \<open>scheduleBatchRun\<close> never fails. It returns the identifier drawn from
  \<open>uuidv4\<close> and stores a scheduled batch with zeroed progress under it in the map in
  memory. When the write of the state file succeeds the file holds the map, the new batch
  included. When the write fails \<open>persistBatchState\<close> catches the error and reports it
  with \<open>console.error\<close> only, and the call returns the identifier all the same; the file
  is then as it was if it could not be opened, is left truncated if the data could not be
  written in full, in which case a process that loads it gets no batch at all, and holds
  the map if only closing it failed.
\<close>

theorem scheduleBatchRun_persistence:
  "fst (scheduleBatchRun e prof cfg st) = uuidv4 e (uuidCalls st) \<and>
   batches (snd (scheduleBatchRun e prof cfg st)) =
     mapSet (uuidv4 e (uuidCalls st)) (newBatch e st (uuidv4 e (uuidCalls st)) prof cfg) (batches st) \<and>
   status (newBatch e st (uuidv4 e (uuidCalls st)) prof cfg) = Scheduled \<and>
   progress (newBatch e st (uuidv4 e (uuidCalls st)) prof cfg) =
     \<lparr> total = 0, processed = 0, failed = 0, succeeded = 0 \<rparr> \<and>
   stateFile (snd (scheduleBatchRun e prof cfg st)) =
     (case writeFileSync e (writes st) of
        Written \<Rightarrow> Entries (batches (snd (scheduleBatchRun e prof cfg st)))
      | Refused \<Rightarrow> stateFile st
      | Torn \<Rightarrow> Unparsable
      | Unclosed \<Rightarrow> Entries (batches (snd (scheduleBatchRun e prof cfg st)))) \<and>
   console (snd (scheduleBatchRun e prof cfg st)) =
     (case writeFileSync e (writes st) of
        Written \<Rightarrow> console st
      | _ \<Rightarrow> console st @ [''Failed to persist batch state:'']) \<and>
   batches (loadBatchState (snd (scheduleBatchRun e prof cfg st) \<lparr> batches := [] \<rparr>)) =
     (case writeFileSync e (writes st) of
        Refused \<Rightarrow> batches (loadBatchState (st \<lparr> batches := [] \<rparr>))
      | Torn \<Rightarrow> []
      | _ \<Rightarrow> foldl (\<lambda>m kv. mapSet (fst kv) (snd kv) m) []
               (batches (snd (scheduleBatchRun e prof cfg st))))"
proof -
  have a: "fst (scheduleBatchRun e prof cfg st) = uuidv4 e (uuidCalls st)"
    and b: "batches (snd (scheduleBatchRun e prof cfg st)) =
     mapSet (uuidv4 e (uuidCalls st)) (newBatch e st (uuidv4 e (uuidCalls st)) prof cfg) (batches st)"
    by (simp_all add: scheduleBatchRun_after)
  have c: "status (newBatch e st (uuidv4 e (uuidCalls st)) prof cfg) = Scheduled"
    and d: "progress (newBatch e st (uuidv4 e (uuidCalls st)) prof cfg) =
     \<lparr> total = 0, processed = 0, failed = 0, succeeded = 0 \<rparr>"
    by (simp_all add: zeroProgress_def)
  note f = schedule_file(1) [of e prof cfg st]
  note g = schedule_file(2) [of e prof cfg st]
  have h: "batches (loadBatchState (snd (scheduleBatchRun e prof cfg st) \<lparr> batches := [] \<rparr>)) =
     (case writeFileSync e (writes st) of
        Refused \<Rightarrow> batches (loadBatchState (st \<lparr> batches := [] \<rparr>))
      | Torn \<Rightarrow> []
      | _ \<Rightarrow> foldl (\<lambda>m kv. mapSet (fst kv) (snd kv) m) []
               (batches (snd (scheduleBatchRun e prof cfg st))))"
    by (simp add: loadBatchState_def f split: write_outcome.splits state_file.splits)
  from a b c d f g h show ?thesis by blast
qed

theorem scheduleBatchRun_persistence_witness:
  "fst (scheduleBatchRun luckyEnv ''p1'' ''cfg'' startup) = 0 \<and>
   stateFile (snd (scheduleBatchRun luckyEnv ''p1'' ''cfg'' startup)) =
     Entries [(0, newBatch luckyEnv startup 0 ''p1'' ''cfg'')] \<and>
   console (snd (scheduleBatchRun luckyEnv ''p1'' ''cfg'' startup)) = []"
  using scheduleBatchRun_persistence [of luckyEnv "''p1''" "''cfg''" startup]
  by (simp add: startup_def mapSet_def)

section \<open>Status transitions\<close>

lemma mapGet_distinct:
  assumes "distinct (map fst m)" and "j < length m"
  shows "mapGet (fst (m ! j)) m = Some j"
  unfolding mapGet_def
proof (rule findIndex_first)
  show "j < length m" by (rule assms(2))
  show "fst (m ! j) = fst (m ! j)" by simp
  show "\<forall>k < j. \<not> fst (m ! k) = fst (m ! j)"
  proof (intro allI impI)
    fix k assume "k < j"
    with assms have "map fst m ! k \<noteq> map fst m ! j"
      unfolding distinct_conv_nth by simp
    with \<open>k < j\<close> assms(2) show "\<not> fst (m ! k) = fst (m ! j)" by simp
  qed
qed

lemma schedule_appends:
  assumes ok: "registryOk e (uuidCalls st) (batches st)" and inj: "inj (uuidv4 e)"
  shows "batches (snd (scheduleBatchRun e prof cfg st)) =
           batches st @ [(uuidv4 e (uuidCalls st), newBatch e st (uuidv4 e (uuidCalls st)) prof cfg)]"
proof -
  have "uuidv4 e (uuidCalls st) \<notin> uuidv4 e ` {..< uuidCalls st}"
    using inj by (auto dest: injD)
  with ok have "uuidv4 e (uuidCalls st) \<notin> fst ` set (batches st)"
    unfolding registryOk_def by blast
  then show ?thesis by (simp add: scheduleBatchRun_after mapSet_fresh)
qed

lemma schedule_keeps:
  assumes ok: "registryOk e (uuidCalls st) (batches st)" and inj: "inj (uuidv4 e)"
      and j: "j < length (batches st)"
  shows "j < length (batches (snd (scheduleBatchRun e prof cfg st)))"
    and "batches (snd (scheduleBatchRun e prof cfg st)) ! j = batches st ! j"
    and "batchAt (snd (scheduleBatchRun e prof cfg st)) j = batchAt st j"
  using j unfolding schedule_appends [OF ok inj] batchAt_def by (simp_all add: nth_append)

lemma touchesOnly_other:
  "touchesOnly i st st1 \<Longrightarrow> j \<noteq> i \<Longrightarrow> batchAt st1 j = batchAt st j"
  by (simp add: touchesOnly_def batchAt_def)

lemma touchesOnly_key:
  "touchesOnly i st st1 \<Longrightarrow> fst (batches st1 ! j) = fst (batches st ! j)"
  by (cases "j = i") (simp_all add: touchesOnly_def)

lemma touchesOnly_length:
  "touchesOnly i st st1 \<Longrightarrow> length (batches st1) = length (batches st)"
  by (simp add: touchesOnly_def)

lemma touchesOnly_registry:
  assumes r: "registryOk e (uuidCalls st) (batches st)" and i: "i < length (batches st)"
      and t: "touchesOnly i st st1" and s: "status (batchAt st1 i) \<noteq> Scheduled"
  shows "registryOk e (uuidCalls st1) (batches st1)"
proof -
  have "batches st1 = (batches st) [i := (fst (batches st ! i), batchAt st1 i)]"
  proof (rule nth_equalityI)
    show "length (batches st1) = length ((batches st) [i := (fst (batches st ! i), batchAt st1 i)])"
      using t by (simp add: touchesOnly_def)
    fix j assume "j < length (batches st1)"
    show "batches st1 ! j = (batches st) [i := (fst (batches st ! i), batchAt st1 i)] ! j"
    proof (cases "j = i")
      case True
      with t i show ?thesis by (simp add: touchesOnly_def batchAt_def prod_eq_iff)
    next
      case False
      with t show ?thesis by (simp add: touchesOnly_def)
    qed
  qed
  moreover have "uuidCalls st1 = uuidCalls st" using t by (simp add: touchesOnly_def)
  ultimately show ?thesis using registryOk_update [OF r i s] by simp
qed

lemma touchesOnly_begin:
  "i < length (batches st) \<Longrightarrow> touchesOnly i st (beginBatch e i rows st)"
  by (simp add: touchesOnly_def beginBatch_after)

lemma touchesOnly_finish:
  "i < length (batches st) \<Longrightarrow> touchesOnly i st (finishBatch e i rows fails st)"
  by (simp add: touchesOnly_def finishBatch_after)

lemma touchesOnly_complete:
  "mapGet bid (batches st) = Some i \<Longrightarrow> touchesOnly i st (handleBatchCompletion e bid sm st)"
  by (simp add: touchesOnly_def handleBatchCompletion_after)

lemma processRow_state:
  "snd (snd (processRow e i (res, fails, st) r)) = snd (snd (processRow e i ([], [], st) r))"
  by (simp add: processRow_def split: prod.splits sum.splits)

lemma row_keeps:
  assumes i: "i < length (batches st)"
  shows "touchesOnly i st (snd (snd (processRow e i (res, fails, st) r)))"
    and "status (batchAt (snd (snd (processRow e i (res, fails, st) r))) i) = status (batchAt st i)"
proof -
  obtain res1 fails1 st1 where p: "processRow e i ([], [], st) r = (res1, fails1, st1)"
    by (cases "processRow e i ([], [], st) r")
  have "rowsDone i st (processRow e i ([], [], st) r)"
    using rowsDone_start i by (rule rowsDone_step)
  with p have "touchesOnly i st st1" and "status (batchAt st1 i) = status (batchAt st i)"
    by (simp_all add: rowsDone_def touchesOnly_def sameBatch_def)
  moreover have "snd (snd (processRow e i (res, fails, st) r)) = st1"
    unfolding processRow_state [of e i res fails st r] p by simp
  ultimately show "touchesOnly i st (snd (snd (processRow e i (res, fails, st) r)))"
    and "status (batchAt (snd (snd (processRow e i (res, fails, st) r))) i) = status (batchAt st i)"
    by simp_all
qed

lemma finish_status:
  assumes "i < length (batches st)"
  shows "status (batchAt (finishBatch e i rows fails st) i) = (if fails = [] then Completed else Failed)"
    and "failures (batchAt (finishBatch e i rows fails st) i) = fails"
  by (simp_all add: finishBatch_after [OF assms])

lemma begin_status:
  assumes "i < length (batches st)"
  shows "status (batchAt (beginBatch e i rows st) i) = Running"
  by (simp add: beginBatch_after [OF assms])

lemma complete_sets_status:
  assumes ok: "registryOk e (uuidCalls st) (batches st)" and j: "j < length (batches st)"
  shows "length (batches (handleBatchCompletion e bid sm st)) = length (batches st)"
    and "fst (batches (handleBatchCompletion e bid sm st) ! j) = fst (batches st ! j)"
    and "status (batchAt (handleBatchCompletion e bid sm st) j) =
           (if fst (batches st ! j) = bid then Completed else status (batchAt st j))"
proof -
  let ?st1 = "handleBatchCompletion e bid sm st"
  have all: "length (batches ?st1) = length (batches st) \<and>
      fst (batches ?st1 ! j) = fst (batches st ! j) \<and>
      status (batchAt ?st1 j) = (if fst (batches st ! j) = bid then Completed else status (batchAt st j))"
  proof (cases "mapGet bid (batches st)")
    case None
    then have same: "?st1 = st" by (simp add: handleBatchCompletion_def)
    have "batches st ! j \<in> set (batches st)" using j by simp
    with None have "fst (batches st ! j) \<noteq> bid"
      unfolding mapGet_def findIndex_None by blast
    with same show ?thesis by simp
  next
    case (Some i)
    note after = handleBatchCompletion_after [OF Some, where e = e and sm = sm]
    from mapGet_key [OF Some] have i: "i < length (batches st)" "fst (batches st ! i) = bid"
      by simp_all
    show ?thesis
    proof (cases "j = i")
      case True
      have "status (batchAt ?st1 i) = Completed" unfolding after(4) by simp
      with True after(1) after(3) i(2) show ?thesis by simp
    next
      case False
      have neq: "fst (batches st ! j) \<noteq> bid"
      proof
        assume "fst (batches st ! j) = bid"
        moreover have "distinct (map fst (batches st))" using ok by (simp add: registryOk_def)
        ultimately have "mapGet bid (batches st) = Some j"
          using mapGet_distinct [of "batches st" j] j by simp
        with Some False show False by simp
      qed
      from False have "batches ?st1 ! j = batches st ! j" by (rule after(2))
      then have "fst (batches ?st1 ! j) = fst (batches st ! j)"
        and "batchAt ?st1 j = batchAt st j"
        unfolding batchAt_def by simp_all
      with neq after(1) show ?thesis by simp
    qed
  qed
  from all show "length (batches ?st1) = length (batches st)" by blast
  from all show "fst (batches ?st1 ! j) = fst (batches st ! j)" by blast
  from all show "status (batchAt ?st1 j) =
           (if fst (batches st ! j) = bid then Completed else status (batchAt st j))" by blast
qed

lemma registryOk_complete:
  assumes ok: "registryOk e (uuidCalls st) (batches st)"
  shows "registryOk e (uuidCalls (handleBatchCompletion e bid sm st))
           (batches (handleBatchCompletion e bid sm st))"
proof (cases "mapGet bid (batches st)")
  case None
  then show ?thesis using ok by (simp add: handleBatchCompletion_def)
next
  case (Some i)
  from mapGet_key [OF Some] have i: "i < length (batches st)" by simp
  have "status (batchAt (handleBatchCompletion e bid sm st) i) \<noteq> Scheduled"
    by (simp add: handleBatchCompletion_after(4) [OF Some])
  with ok i touchesOnly_complete [OF Some] show ?thesis by (rule touchesOnly_registry)
qed

text \<open>The three stretches of \<open>executeBatch\<close> keep the map and the file sound.\<close>

lemma executing_sound:
  "executing e i st \<Longrightarrow> registryOk e (uuidCalls st) (batches st) \<and> fileOk e st \<and> i < length (batches st)"
  by (simp add: executing_def)

lemma finish_sound:
  assumes "executing e i st"
  shows "registryOk e (uuidCalls (finishBatch e i rows fails st)) (batches (finishBatch e i rows fails st))"
    and "fileOk e (finishBatch e i rows fails st)"
proof -
  from assms have r: "registryOk e (uuidCalls st) (batches st)" and i: "i < length (batches st)"
    by (simp_all add: executing_def)
  have "status (batchAt (finishBatch e i rows fails st) i) \<noteq> Scheduled"
    by (simp add: finish_status [OF i])
  with r i touchesOnly_finish [OF i]
  show "registryOk e (uuidCalls (finishBatch e i rows fails st)) (batches (finishBatch e i rows fails st))"
    by (rule touchesOnly_registry)
  from assms show "fileOk e (finishBatch e i rows fails st)" by (rule finish_file)
qed

text \<open>What each kind of step does to a process.\<close>

lemma callStep_simps:
  "callStep e (ScheduleBatchRun prof cfg) s = s \<lparr> eng := snd (scheduleBatchRun e prof cfg (eng s)) \<rparr>"
  "eng (callStep e (RetryFailedSubmissions fails pol) s) = eng s"
  "tasks (callStep e (RetryFailedSubmissions fails pol) s) = tasks s"
  "callStep e (TrackBatchProgress bid) s = s"
  "callStep e (HandleBatchCompletion bid sm) s = s \<lparr> eng := handleBatchCompletion e bid sm (eng s) \<rparr>"
  by (simp_all add: callStep_def case_prod_beta split: sum.splits)

lemma callStep_execute:
  "findScheduled prof (batches (eng s)) = None \<Longrightarrow>
     eng (callStep e (ExecuteBatch prof rows) s) = eng s \<and>
     tasks (callStep e (ExecuteBatch prof rows) s) = tasks s"
  "findScheduled prof (batches (eng s)) = Some i \<Longrightarrow>
     eng (callStep e (ExecuteBatch prof []) s) = finishBatch e i [] [] (beginBatch e i [] (eng s)) \<and>
     tasks (callStep e (ExecuteBatch prof []) s) = tasks s"
  "findScheduled prof (batches (eng s)) = Some i \<Longrightarrow> rows \<noteq> [] \<Longrightarrow>
     eng (callStep e (ExecuteBatch prof rows) s) = beginBatch e i rows (eng s) \<and>
     tasks (callStep e (ExecuteBatch prof rows) s) =
       tasks s @ [\<lparr> t_index = i, t_inputRows = rows, t_pending = rows,
                    t_results = [], t_failures = [] \<rparr>]"
  by (simp_all add: callStep_def Let_def)

lemma resumeStep_effect:
  assumes "k < length (tasks s)" and "t_pending (tasks s ! k) = r # rest"
  shows "rest \<noteq> [] \<Longrightarrow>
     eng (resumeStep e k s) =
       snd (snd (processRow e (t_index (tasks s ! k))
                   (t_results (tasks s ! k), t_failures (tasks s ! k), eng s) r)) \<and>
     map t_index (tasks (resumeStep e k s)) = map t_index (tasks s) \<and>
     length (tasks (resumeStep e k s)) = length (tasks s) \<and>
     t_pending (tasks (resumeStep e k s) ! k) = rest \<and>
     (\<forall>n. n \<noteq> k \<longrightarrow> tasks (resumeStep e k s) ! n = tasks s ! n)"
    and "rest = [] \<Longrightarrow>
     eng (resumeStep e k s) =
       finishBatch e (t_index (tasks s ! k)) (t_inputRows (tasks s ! k))
         (fst (snd (processRow e (t_index (tasks s ! k))
                      (t_results (tasks s ! k), t_failures (tasks s ! k), eng s) r)))
         (snd (snd (processRow e (t_index (tasks s ! k))
                      (t_results (tasks s ! k), t_failures (tasks s ! k), eng s) r))) \<and>
     tasks (resumeStep e k s) = take k (tasks s) @ drop (Suc k) (tasks s)"
  using assms
  by (simp_all add: resumeStep_def Let_def case_prod_beta map_update list_update_same_conv)

lemma resumeStep_idle: "\<not> k < length (tasks s) \<Longrightarrow> resumeStep e k s = s"
  by (simp add: resumeStep_def)

lemma without_nth:
  assumes "distinct (map f xs)" and "k < length xs"
  shows "distinct (map f (take k xs @ drop (Suc k) xs))"
    and "x \<in> set (take k xs @ drop (Suc k) xs) \<Longrightarrow> x \<in> set xs \<and> f x \<noteq> f (xs ! k)"
proof -
  have split: "xs = take k xs @ xs ! k # drop (Suc k) xs"
    using assms(2) by (rule id_take_nth_drop)
  have d: "distinct (map f (take k xs @ xs ! k # drop (Suc k) xs))"
    using assms(1) split by simp
  then show "distinct (map f (take k xs @ drop (Suc k) xs))" by auto
  assume x: "x \<in> set (take k xs @ drop (Suc k) xs)"
  then have "x \<in> set xs" by (auto dest: in_set_takeD in_set_dropD)
  moreover from d x have "f x \<noteq> f (xs ! k)" by (auto simp: image_iff)
  ultimately show "x \<in> set xs \<and> f x \<noteq> f (xs ! k)" by simp
qed

text \<open>The invariant of a process, taken apart and put together.\<close>

lemma processOk_parts:
  assumes "processOk e s"
  shows "registryOk e (uuidCalls (eng s)) (batches (eng s))" and "fileOk e (eng s)"
    and "distinct (map t_index (tasks s))"
    and "t \<in> set (tasks s) \<Longrightarrow> t_index t < length (batches (eng s))"
    and "t \<in> set (tasks s) \<Longrightarrow>
           status (batchAt (eng s) (t_index t)) = Running \<or>
           status (batchAt (eng s) (t_index t)) = Completed"
    and "t \<in> set (tasks s) \<Longrightarrow> t_pending t \<noteq> []"
  using assms by (auto simp: processOk_def statusAt_def)

lemma processOk_build:
  assumes "registryOk e (uuidCalls (eng s)) (batches (eng s))" and "fileOk e (eng s)"
      and "distinct (map t_index (tasks s))"
      and "\<And>t. t \<in> set (tasks s) \<Longrightarrow>
             t_index t < length (batches (eng s)) \<and>
             (status (batchAt (eng s) (t_index t)) = Running \<or>
              status (batchAt (eng s) (t_index t)) = Completed) \<and>
             t_pending t \<noteq> []"
  shows "processOk e s"
  using assms unfolding processOk_def statusAt_def by blast

lemma processOk_boot: "processOk e boot"
  by (simp add: processOk_def boot_def startup_def registryOk_def fileOk_def)

text \<open>A task does not hold a scheduled batch.\<close>

lemma task_not_scheduled:
  assumes "processOk e s" and "t \<in> set (tasks s)" and "status (batchAt (eng s) i) = Scheduled"
  shows "t_index t \<noteq> i"
  using processOk_parts(5) [OF assms(1,2)] assms(3) by auto

lemma touchesOnly_trans:
  "touchesOnly i st st1 \<Longrightarrow> touchesOnly i st1 st2 \<Longrightarrow> touchesOnly i st st2"
  by (simp add: touchesOnly_def)

lemma processOk_settled [simp]:
  "processOk e (s \<lparr> settled := x \<rparr>) = processOk e s"
  "processOk e (s \<lparr> retryTasks := y \<rparr>) = processOk e s"
  by (simp_all add: processOk_def statusAt_def)

lemma processOk_same:
  assumes "processOk e s" and "eng s1 = eng s" and "tasks s1 = tasks s"
  shows "processOk e s1"
  using assms by (simp add: processOk_def statusAt_def)

lemma processOk_world:
  assumes "processOk e s" and "eng s1 = (eng s) \<lparr> world := w \<rparr>" and "tasks s1 = tasks s"
  shows "processOk e s1"
  using assms by (simp add: processOk_def statusAt_def fileOk_frame)

lemma processOk_eng:
  assumes ok: "processOk e s"
      and r: "registryOk e (uuidCalls st1) (batches st1)" and f: "fileOk e st1"
      and keep: "\<And>t. t \<in> set (tasks s) \<Longrightarrow>
                   t_index t < length (batches st1) \<and>
                   (status (batchAt st1 (t_index t)) = Running \<or>
                    status (batchAt st1 (t_index t)) = Completed)"
  shows "processOk e (s \<lparr> eng := st1 \<rparr>)"
proof (rule processOk_build)
  show "registryOk e (uuidCalls (eng (s \<lparr> eng := st1 \<rparr>))) (batches (eng (s \<lparr> eng := st1 \<rparr>)))"
    using r by simp
  show "fileOk e (eng (s \<lparr> eng := st1 \<rparr>))" using f by simp
  show "distinct (map t_index (tasks (s \<lparr> eng := st1 \<rparr>)))"
    using processOk_parts(3) [OF ok] by simp
  fix t assume "t \<in> set (tasks (s \<lparr> eng := st1 \<rparr>))"
  then have t: "t \<in> set (tasks s)" by simp
  from keep [OF t] processOk_parts(6) [OF ok t]
  show "t_index t < length (batches (eng (s \<lparr> eng := st1 \<rparr>))) \<and>
        (status (batchAt (eng (s \<lparr> eng := st1 \<rparr>)) (t_index t)) = Running \<or>
         status (batchAt (eng (s \<lparr> eng := st1 \<rparr>)) (t_index t)) = Completed) \<and>
        t_pending t \<noteq> []"
    by simp
qed

lemma step_schedule:
  assumes ok: "processOk e s" and inj: "inj (uuidv4 e)"
  shows "processOk e (callStep e (ScheduleBatchRun prof cfg) s)"
    and "j < length (batches (eng s)) \<Longrightarrow>
           j < length (batches (eng (callStep e (ScheduleBatchRun prof cfg) s))) \<and>
           batches (eng (callStep e (ScheduleBatchRun prof cfg) s)) ! j = batches (eng s) ! j"
proof -
  let ?st1 = "snd (scheduleBatchRun e prof cfg (eng s))"
  note p = processOk_parts [OF ok]
  note keep = schedule_keeps [OF p(1) inj]
  have eq: "callStep e (ScheduleBatchRun prof cfg) s = s \<lparr> eng := ?st1 \<rparr>"
    by (rule callStep_simps)
  show "processOk e (callStep e (ScheduleBatchRun prof cfg) s)"
    unfolding eq
  proof (rule processOk_eng [OF ok])
    show "registryOk e (uuidCalls ?st1) (batches ?st1)" using p(1) by (rule registryOk_schedule)
    show "fileOk e ?st1" using p(1) p(2) by (rule fileOk_schedule)
    fix t assume t: "t \<in> set (tasks s)"
    from keep(1) [OF p(4) [OF t]] keep(3) [OF p(4) [OF t]] p(5) [OF t]
    show "t_index t < length (batches ?st1) \<and>
          (status (batchAt ?st1 (t_index t)) = Running \<or> status (batchAt ?st1 (t_index t)) = Completed)"
      by simp
  qed
  assume "j < length (batches (eng s))"
  from keep(1) [OF this] keep(2) [OF this]
  show "j < length (batches (eng (callStep e (ScheduleBatchRun prof cfg) s))) \<and>
        batches (eng (callStep e (ScheduleBatchRun prof cfg) s)) ! j = batches (eng s) ! j"
    unfolding eq by simp
qed

lemma step_retry:
  assumes ok: "processOk e s"
  shows "processOk e (callStep e (RetryFailedSubmissions fails pol) s)"
    and "eng (callStep e (RetryFailedSubmissions fails pol) s) = eng s"
  using processOk_same [OF ok callStep_simps(2) callStep_simps(3)] callStep_simps(2) by blast+

lemma retryStep_effect:
  "\<exists>w. eng (retryStep e k s) = (eng s) \<lparr> world := w \<rparr>"
  "tasks (retryStep e k s) = tasks s"
proof -
  show "\<exists>w. eng (retryStep e k s) = (eng s) \<lparr> world := w \<rparr>"
  proof (cases "k < length (retryTasks s)")
    case True
    then show ?thesis
      by (auto simp: retryStep_def Let_def case_prod_beta split: sum.splits)
  next
    case False
    then have "eng (retryStep e k s) = (eng s) \<lparr> world := world (eng s) \<rparr>"
      by (simp add: retryStep_def)
    then show ?thesis by blast
  qed
  show "tasks (retryStep e k s) = tasks s"
    by (simp add: retryStep_def Let_def case_prod_beta split: sum.splits)
qed

lemma step_retry_settles:
  assumes ok: "processOk e s"
  shows "processOk e (retryStep e k s)"
    and "batches (eng (retryStep e k s)) = batches (eng s)"
proof -
  from retryStep_effect(1) [of e k s] obtain w where w: "eng (retryStep e k s) = (eng s) \<lparr> world := w \<rparr>"
    by blast
  from ok w retryStep_effect(2) show "processOk e (retryStep e k s)" by (rule processOk_world)
  from w show "batches (eng (retryStep e k s)) = batches (eng s)" by simp
qed

lemma step_complete:
  assumes ok: "processOk e s"
  shows "processOk e (callStep e (HandleBatchCompletion bid sm) s)"
    and "j < length (batches (eng s)) \<Longrightarrow>
           length (batches (eng (callStep e (HandleBatchCompletion bid sm) s))) = length (batches (eng s)) \<and>
           fst (batches (eng (callStep e (HandleBatchCompletion bid sm) s)) ! j) = fst (batches (eng s) ! j) \<and>
           status (batchAt (eng (callStep e (HandleBatchCompletion bid sm) s)) j) =
             (if fst (batches (eng s) ! j) = bid then Completed else status (batchAt (eng s) j))"
proof -
  let ?st1 = "handleBatchCompletion e bid sm (eng s)"
  note p = processOk_parts [OF ok]
  note c = complete_sets_status [OF p(1), where bid = bid and sm = sm]
  have eq: "callStep e (HandleBatchCompletion bid sm) s = s \<lparr> eng := ?st1 \<rparr>"
    by (rule callStep_simps)
  show "processOk e (callStep e (HandleBatchCompletion bid sm) s)"
    unfolding eq
  proof (rule processOk_eng [OF ok])
    show "registryOk e (uuidCalls ?st1) (batches ?st1)" using p(1) by (rule registryOk_complete)
    show "fileOk e ?st1" using p(1) p(2) by (rule fileOk_complete)
    fix t assume t: "t \<in> set (tasks s)"
    from c(1) [OF p(4) [OF t]] c(3) [OF p(4) [OF t]] p(4) [OF t] p(5) [OF t]
    show "t_index t < length (batches ?st1) \<and>
          (status (batchAt ?st1 (t_index t)) = Running \<or> status (batchAt ?st1 (t_index t)) = Completed)"
      by auto
  qed
  assume j: "j < length (batches (eng s))"
  from c(1) [OF j] c(2) [OF j] c(3) [OF j]
  show "length (batches (eng (callStep e (HandleBatchCompletion bid sm) s))) = length (batches (eng s)) \<and>
        fst (batches (eng (callStep e (HandleBatchCompletion bid sm) s)) ! j) = fst (batches (eng s) ! j) \<and>
        status (batchAt (eng (callStep e (HandleBatchCompletion bid sm) s)) j) =
          (if fst (batches (eng s) ! j) = bid then Completed else status (batchAt (eng s) j))"
    unfolding eq by simp
qed

lemma step_execute_none:
  assumes ok: "processOk e s" and none: "findScheduled prof (batches (eng s)) = None"
  shows "processOk e (callStep e (ExecuteBatch prof rows) s)"
    and "eng (callStep e (ExecuteBatch prof rows) s) = eng s"
  using ok none by (simp_all add: callStep_def)

lemma step_execute:
  assumes ok: "processOk e s" and found: "findScheduled prof (batches (eng s)) = Some i"
  shows "processOk e (callStep e (ExecuteBatch prof rows) s)"
    and "touchesOnly i (eng s) (eng (callStep e (ExecuteBatch prof rows) s))"
    and "status (batchAt (eng s) i) = Scheduled"
    and "status (batchAt (beginBatch e i rows (eng s)) i) = Running"
    and "status (batchAt (eng (callStep e (ExecuteBatch prof rows) s)) i) =
           (if rows = [] then Completed else Running)"
proof -
  note p = processOk_parts [OF ok]
  from found have sched: "status (batchAt (eng s) i) = Scheduled" and i: "i < length (batches (eng s))"
    using findIndex_Some [of _ "batches (eng s)" i] unfolding findScheduled_def batchAt_def by auto
  let ?st1 = "beginBatch e i rows (eng s)"
  let ?st2 = "finishBatch e i rows [] ?st1"
  have ex1: "executing e i ?st1" using p(1) p(2) i by (rule executing_begin)
  have t1: "touchesOnly i (eng s) ?st1" using i by (rule touchesOnly_begin)
  have i1: "i < length (batches ?st1)" using i t1 by (simp add: touchesOnly_def)
  have t2: "touchesOnly i (eng s) ?st2"
    using t1 touchesOnly_finish [OF i1] by (rule touchesOnly_trans)
  have run: "status (batchAt ?st1 i) = Running" using i by (rule begin_status)
  have fin: "status (batchAt ?st2 i) = Completed" by (simp add: finish_status [OF i1])
  have old: "\<And>t st1. t \<in> set (tasks s) \<Longrightarrow> touchesOnly i (eng s) st1 \<Longrightarrow>
      t_index t < length (batches st1) \<and>
      (status (batchAt st1 (t_index t)) = Running \<or> status (batchAt st1 (t_index t)) = Completed)"
  proof -
    fix t st1 assume t: "t \<in> set (tasks s)" and to: "touchesOnly i (eng s) st1"
    from task_not_scheduled [OF ok t sched] have "t_index t \<noteq> i" .
    with to have "batchAt st1 (t_index t) = batchAt (eng s) (t_index t)" by (rule touchesOnly_other)
    with p(4) [OF t] p(5) [OF t] to
    show "t_index t < length (batches st1) \<and>
      (status (batchAt st1 (t_index t)) = Running \<or> status (batchAt st1 (t_index t)) = Completed)"
      by (simp add: touchesOnly_def)
  qed
  show "status (batchAt (eng s) i) = Scheduled" by (rule sched)
  show "status (batchAt (beginBatch e i rows (eng s)) i) = Running" by (rule run)
  show "processOk e (callStep e (ExecuteBatch prof rows) s)"
  proof (cases "rows = []")
    case True
    have "processOk e (s \<lparr> eng := ?st2 \<rparr>)"
    proof (rule processOk_eng [OF ok])
      show "registryOk e (uuidCalls ?st2) (batches ?st2)" using ex1 by (rule finish_sound)
      show "fileOk e ?st2" using ex1 by (rule finish_sound)
      fix t assume "t \<in> set (tasks s)"
      then show "t_index t < length (batches ?st2) \<and>
          (status (batchAt ?st2 (t_index t)) = Running \<or> status (batchAt ?st2 (t_index t)) = Completed)"
        using t2 by (rule old)
    qed
    with True found show ?thesis by (simp add: callStep_def Let_def)
  next
    case False
    let ?t = "\<lparr> t_index = i, t_inputRows = rows, t_pending = rows, t_results = [], t_failures = [] \<rparr>"
    have "processOk e (s \<lparr> eng := ?st1, tasks := tasks s @ [?t] \<rparr>)"
    proof (rule processOk_build)
      show "registryOk e (uuidCalls (eng (s \<lparr> eng := ?st1, tasks := tasks s @ [?t] \<rparr>)))
              (batches (eng (s \<lparr> eng := ?st1, tasks := tasks s @ [?t] \<rparr>)))"
        using executing_sound [OF ex1] by simp
      show "fileOk e (eng (s \<lparr> eng := ?st1, tasks := tasks s @ [?t] \<rparr>))"
        using executing_sound [OF ex1] by simp
      have "i \<notin> t_index ` set (tasks s)"
        using task_not_scheduled [OF ok _ sched] by blast
      with p(3) show "distinct (map t_index (tasks (s \<lparr> eng := ?st1, tasks := tasks s @ [?t] \<rparr>)))"
        by simp
      fix t assume "t \<in> set (tasks (s \<lparr> eng := ?st1, tasks := tasks s @ [?t] \<rparr>))"
      then have "t \<in> set (tasks s) \<or> t = ?t" by auto
      then show "t_index t < length (batches (eng (s \<lparr> eng := ?st1, tasks := tasks s @ [?t] \<rparr>))) \<and>
          (status (batchAt (eng (s \<lparr> eng := ?st1, tasks := tasks s @ [?t] \<rparr>)) (t_index t)) = Running \<or>
           status (batchAt (eng (s \<lparr> eng := ?st1, tasks := tasks s @ [?t] \<rparr>)) (t_index t)) = Completed) \<and>
          t_pending t \<noteq> []"
      proof
        assume t: "t \<in> set (tasks s)"
        from old [OF t t1] p(6) [OF t] show ?thesis by simp
      next
        assume "t = ?t"
        with i1 run False show ?thesis by simp
      qed
    qed
    with False found show ?thesis by (simp add: callStep_def Let_def)
  qed
  show "touchesOnly i (eng s) (eng (callStep e (ExecuteBatch prof rows) s))"
    using found t1 t2 by (cases "rows = []") (simp_all add: callStep_def Let_def)
  show "status (batchAt (eng (callStep e (ExecuteBatch prof rows) s)) i) =
           (if rows = [] then Completed else Running)"
    using found run fin by (cases "rows = []") (simp_all add: callStep_def Let_def)
qed

lemma step_resume:
  assumes ok: "processOk e s" and k: "k < length (tasks s)"
  shows "processOk e (resumeStep e k s)"
    and "touchesOnly (t_index (tasks s ! k)) (eng s) (eng (resumeStep e k s))"
    and "status (batchAt (eng s) (t_index (tasks s ! k))) = Running \<or>
         status (batchAt (eng s) (t_index (tasks s ! k))) = Completed"
    and "status (batchAt (eng (resumeStep e k s)) (t_index (tasks s ! k))) =
           (if length (t_pending (tasks s ! k)) = 1
            then (if failures (batchAt (eng (resumeStep e k s)) (t_index (tasks s ! k))) = []
                  then Completed else Failed)
            else status (batchAt (eng s) (t_index (tasks s ! k))))"
proof -
  let ?t = "tasks s ! k"
  let ?i = "t_index ?t"
  note p = processOk_parts [OF ok]
  have t: "?t \<in> set (tasks s)" using k by simp
  from p(6) [OF t] obtain r rest where pend: "t_pending ?t = r # rest"
    by (cases "t_pending ?t") auto
  let ?out = "processRow e ?i (t_results ?t, t_failures ?t, eng s) r"
  let ?st1 = "snd (snd ?out)"
  let ?fails = "fst (snd ?out)"
  let ?st2 = "finishBatch e ?i (t_inputRows ?t) ?fails ?st1"
  have i: "?i < length (batches (eng s))" using t by (rule p(4))
  have live: "status (batchAt (eng s) ?i) = Running \<or> status (batchAt (eng s) ?i) = Completed"
    using t by (rule p(5))
  then have ex: "executing e ?i (eng s)" using i p(1) p(2) by (auto simp: executing_def)
  have ex1: "executing e ?i ?st1"
    using executing_processRow [of e ?i "(t_results ?t, t_failures ?t, eng s)" r] ex by simp
  note rk = row_keeps [OF i, of e "t_results ?t" "t_failures ?t" r]
  have i1: "?i < length (batches ?st1)" using i rk(1) by (simp add: touchesOnly_def)
  have t2: "touchesOnly ?i (eng s) ?st2"
    using rk(1) touchesOnly_finish [OF i1] by (rule touchesOnly_trans)
  have others: "\<And>u st1. u \<in> set (tasks s) \<Longrightarrow> t_index u \<noteq> ?i \<Longrightarrow> touchesOnly ?i (eng s) st1 \<Longrightarrow>
      t_index u < length (batches st1) \<and>
      (status (batchAt st1 (t_index u)) = Running \<or> status (batchAt st1 (t_index u)) = Completed)"
  proof -
    fix u st1 assume u: "u \<in> set (tasks s)" and ne: "t_index u \<noteq> ?i"
      and to: "touchesOnly ?i (eng s) st1"
    from to ne have "batchAt st1 (t_index u) = batchAt (eng s) (t_index u)" by (rule touchesOnly_other)
    with p(4) [OF u] p(5) [OF u] to
    show "t_index u < length (batches st1) \<and>
      (status (batchAt st1 (t_index u)) = Running \<or> status (batchAt st1 (t_index u)) = Completed)"
      by (simp add: touchesOnly_def)
  qed
  show "status (batchAt (eng s) ?i) = Running \<or> status (batchAt (eng s) ?i) = Completed"
    by (rule live)
  show "processOk e (resumeStep e k s)"
  proof (cases "rest = []")
    case False
    note eff = resumeStep_effect(1) [OF k pend False, of e]
    show ?thesis
    proof (rule processOk_build)
      show "registryOk e (uuidCalls (eng (resumeStep e k s))) (batches (eng (resumeStep e k s)))"
        using executing_sound [OF ex1] eff by simp
      show "fileOk e (eng (resumeStep e k s))"
        using executing_sound [OF ex1] eff by simp
      show "distinct (map t_index (tasks (resumeStep e k s)))"
        using p(3) eff by simp
      fix u assume "u \<in> set (tasks (resumeStep e k s))"
      then obtain n where n: "n < length (tasks s)" and u: "u = tasks (resumeStep e k s) ! n"
        using eff by (auto simp: in_set_conv_nth)
      have idx: "t_index u = t_index (tasks s ! n)"
      proof -
        from eff have len: "length (tasks (resumeStep e k s)) = length (tasks s)"
          and m: "map t_index (tasks (resumeStep e k s)) = map t_index (tasks s)"
          by simp_all
        have "map t_index (tasks (resumeStep e k s)) ! n = t_index (tasks (resumeStep e k s) ! n)"
          using n len by (intro nth_map) simp
        moreover have "map t_index (tasks s) ! n = t_index (tasks s ! n)"
          using n by (intro nth_map)
        ultimately show ?thesis unfolding m u by simp
      qed
      show "t_index u < length (batches (eng (resumeStep e k s))) \<and>
          (status (batchAt (eng (resumeStep e k s)) (t_index u)) = Running \<or>
           status (batchAt (eng (resumeStep e k s)) (t_index u)) = Completed) \<and>
          t_pending u \<noteq> []"
      proof (cases "n = k")
        case True
        with idx have "t_index u = ?i" by simp
        moreover from True u eff False have "t_pending u \<noteq> []" by simp
        ultimately show ?thesis using eff i1 rk(2) live by simp
      next
        case ne: False
        with u eff have same: "u = tasks s ! n" by simp
        with n have mem: "u \<in> set (tasks s)" by simp
        have "map t_index (tasks s) ! n \<noteq> map t_index (tasks s) ! k"
          using p(3) n k ne unfolding distinct_conv_nth by simp
        with n k same have "t_index u \<noteq> ?i" by simp
        from others [OF mem this rk(1)] p(6) [OF mem] eff show ?thesis by simp
      qed
    qed
  next
    case True
    note eff = resumeStep_effect(2) [OF k pend True, of e]
    show ?thesis
    proof (rule processOk_build)
      show "registryOk e (uuidCalls (eng (resumeStep e k s))) (batches (eng (resumeStep e k s)))"
        using finish_sound(1) [OF ex1] eff by simp
      show "fileOk e (eng (resumeStep e k s))"
        using finish_sound(2) [OF ex1] eff by simp
      show "distinct (map t_index (tasks (resumeStep e k s)))"
        using without_nth(1) [OF p(3) k] eff by simp
      fix u assume "u \<in> set (tasks (resumeStep e k s))"
      then have "u \<in> set (take k (tasks s) @ drop (Suc k) (tasks s))" using eff by simp
      from without_nth(2) [OF p(3) k this]
      have mem: "u \<in> set (tasks s)" and ne: "t_index u \<noteq> ?i" by simp_all
      from others [OF mem ne t2] p(6) [OF mem] eff
      show "t_index u < length (batches (eng (resumeStep e k s))) \<and>
          (status (batchAt (eng (resumeStep e k s)) (t_index u)) = Running \<or>
           status (batchAt (eng (resumeStep e k s)) (t_index u)) = Completed) \<and>
          t_pending u \<noteq> []"
        by simp
    qed
  qed
  show "touchesOnly ?i (eng s) (eng (resumeStep e k s))"
  proof (cases "rest = []")
    case False
    with resumeStep_effect(1) [OF k pend False, of e] rk(1) show ?thesis by simp
  next
    case True
    with resumeStep_effect(2) [OF k pend True, of e] t2 show ?thesis by simp
  qed
  show "status (batchAt (eng (resumeStep e k s)) ?i) =
           (if length (t_pending ?t) = 1
            then (if failures (batchAt (eng (resumeStep e k s)) ?i) = [] then Completed else Failed)
            else status (batchAt (eng s) ?i))"
  proof (cases "rest = []")
    case False
    with resumeStep_effect(1) [OF k pend False, of e] rk(2) pend show ?thesis by simp
  next
    case True
    with resumeStep_effect(2) [OF k pend True, of e] finish_status [OF i1] pend
    show ?thesis by simp
  qed
qed

lemma step_restart:
  assumes ok: "processOk e s"
  shows "processOk e (restartStep s)"
    and "batches (eng (restartStep s)) = (case stateFile (eng s) of Entries m \<Rightarrow> m | _ \<Rightarrow> [])"
    and "tasks (restartStep s) = []"
proof -
  note p = processOk_parts [OF ok]
  show "processOk e (restartStep s)"
    using restart_registry [OF p(2)] by (simp add: processOk_def restartStep_def)
  show "batches (eng (restartStep s)) = (case stateFile (eng s) of Entries m \<Rightarrow> m | _ \<Rightarrow> [])"
    using restart_loads(1) [OF p(2)] by (simp add: restartStep_def)
  show "tasks (restartStep s) = []" by (simp add: restartStep_def)
qed

text \<open>The invariant holds after any steps.\<close>

lemma processOk_advance:
  assumes ok: "processOk e s" and inj: "inj (uuidv4 e)"
  shows "processOk e (advance e x s)"
proof (cases x)
  case (Call c)
  show ?thesis
  proof (cases c)
    case (ScheduleBatchRun prof cfg)
    with Call step_schedule(1) [OF ok inj] show ?thesis by simp
  next
    case (ExecuteBatch prof rows)
    show ?thesis
    proof (cases "findScheduled prof (batches (eng s))")
      case None
      with Call ExecuteBatch step_execute_none(1) [OF ok] show ?thesis by simp
    next
      case (Some i)
      with Call ExecuteBatch step_execute(1) [OF ok] show ?thesis by simp
    qed
  next
    case (RetryFailedSubmissions fails pol)
    with Call step_retry(1) [OF ok] show ?thesis by simp
  next
    case (TrackBatchProgress bid)
    with Call ok show ?thesis by (simp add: callStep_simps)
  next
    case (HandleBatchCompletion bid sm)
    with Call step_complete(1) [OF ok] show ?thesis by simp
  qed
next
  case (Resume k)
  show ?thesis
  proof (cases "k < length (tasks s)")
    case True
    with Resume step_resume(1) [OF ok] show ?thesis by simp
  next
    case False
    with Resume ok show ?thesis by (simp add: resumeStep_idle)
  qed
next
  case (ResumeRetry k)
  with step_retry_settles(1) [OF ok] show ?thesis by simp
next
  case Restart
  with step_restart(1) [OF ok] show ?thesis by simp
qed

lemma processOk_reached:
  assumes "inj (uuidv4 e)"
  shows "processOk e (reached e steps)"
proof (induction steps rule: rev_induct)
  case Nil
  show ?case by (simp add: reached_def processOk_boot)
next
  case (snoc x steps)
  have "reached e (steps @ [x]) = advance e x (reached e steps)"
    by (simp add: reached_def)
  with processOk_advance [OF snoc assms] show ?case by simp
qed

lemma reached_snoc: "reached e (steps @ [x]) = advance e x (reached e steps)"
  by (simp add: reached_def)

text \<open>
  A call of \<open>executeBatch\<close> during which nothing else happens: the call and then one
  settlement for each row. It leaves the module as \<open>executeBatch\<close> run in one piece leaves
  it, and returns the same value.
\<close>

lemma resume_to_end:
  assumes "tasks s = ts @ [t]" and "t_pending t = ps" and "ps \<noteq> []"
  shows "foldl (\<lambda>s x. advance e x s) s (replicate (length ps) (Resume (length ts))) =
     (case foldl (processRow e (t_index t)) (t_results t, t_failures t, eng s) ps of
        (res, fails, st1) \<Rightarrow>
          s \<lparr> eng := finishBatch e (t_index t) (t_inputRows t) fails st1,
              tasks := ts,
              settled := settled s @
                [Executed \<lparr> batchId = b_id (batchAt (finishBatch e (t_index t) (t_inputRows t) fails st1) (t_index t)),
                        results = res,
                        exec_failures = failures (batchAt (finishBatch e (t_index t) (t_inputRows t) fails st1) (t_index t)) \<rparr>] \<rparr>)"
  using assms
proof (induction ps arbitrary: s t)
  case Nil
  then show ?case by simp
next
  case (Cons r rest)
  obtain res fails st1 where row: "processRow e (t_index t) (t_results t, t_failures t, eng s) r = (res, fails, st1)"
    by (cases "processRow e (t_index t) (t_results t, t_failures t, eng s) r")
  have k: "length ts < length (tasks s)" and at: "tasks s ! length ts = t"
    using Cons.prems(1) by simp_all
  show ?case
  proof (cases "rest = []")
    case True
    have "resumeStep e (length ts) s =
        s \<lparr> eng := finishBatch e (t_index t) (t_inputRows t) fails st1,
            tasks := ts,
            settled := settled s @
              [Executed \<lparr> batchId = b_id (batchAt (finishBatch e (t_index t) (t_inputRows t) fails st1) (t_index t)),
                      results = res,
                      exec_failures = failures (batchAt (finishBatch e (t_index t) (t_inputRows t) fails st1) (t_index t)) \<rparr>] \<rparr>"
      using k at Cons.prems(1,2) True row by (simp add: resumeStep_def Let_def)
    with True row show ?thesis by simp
  next
    case False
    let ?t1 = "t \<lparr> t_pending := rest, t_results := res, t_failures := fails \<rparr>"
    let ?s1 = "s \<lparr> eng := st1, tasks := ts @ [?t1] \<rparr>"
    have step: "resumeStep e (length ts) s = ?s1"
      using k at Cons.prems(1,2) False row by (simp add: resumeStep_def Let_def)
    have "foldl (\<lambda>s x. advance e x s) ?s1 (replicate (length rest) (Resume (length ts))) =
     (case foldl (processRow e (t_index ?t1)) (t_results ?t1, t_failures ?t1, eng ?s1) rest of
        (res, fails, st1) \<Rightarrow>
          ?s1 \<lparr> eng := finishBatch e (t_index ?t1) (t_inputRows ?t1) fails st1,
              tasks := ts,
              settled := settled ?s1 @
                [Executed \<lparr> batchId = b_id (batchAt (finishBatch e (t_index ?t1) (t_inputRows ?t1) fails st1) (t_index ?t1)),
                        results = res,
                        exec_failures = failures (batchAt (finishBatch e (t_index ?t1) (t_inputRows ?t1) fails st1) (t_index ?t1)) \<rparr>] \<rparr>)"
      by (rule Cons.IH) (simp_all add: False)
    then show ?thesis
      using step row by (simp add: case_prod_beta)
  qed
qed

lemma uninterrupted_run:
  assumes found: "findScheduled prof (batches (eng s)) = Some i"
  shows "foldl (\<lambda>s x. advance e x s) s
           (Call (ExecuteBatch prof rows) # replicate (length rows) (Resume (length (tasks s)))) =
         s \<lparr> eng := snd (perform e (ExecuteBatch prof rows) (eng s)),
             settled := settled s @ [fst (perform e (ExecuteBatch prof rows) (eng s))] \<rparr>"
proof (cases "rows = []")
  case True
  with found show ?thesis
    by (simp add: callStep_def executeBatch_def processRows_def Let_def)
next
  case False
  let ?t = "\<lparr> t_index = i, t_inputRows = rows, t_pending = rows, t_results = [], t_failures = [] \<rparr>"
  let ?s1 = "s \<lparr> eng := beginBatch e i rows (eng s), tasks := tasks s @ [?t] \<rparr>"
  have first: "callStep e (ExecuteBatch prof rows) s = ?s1"
    using found False by (simp add: callStep_def Let_def)
  have "foldl (\<lambda>s x. advance e x s) ?s1 (replicate (length rows) (Resume (length (tasks s)))) =
     (case foldl (processRow e (t_index ?t)) (t_results ?t, t_failures ?t, eng ?s1) rows of
        (res, fails, st1) \<Rightarrow>
          ?s1 \<lparr> eng := finishBatch e (t_index ?t) (t_inputRows ?t) fails st1,
              tasks := tasks s,
              settled := settled ?s1 @
                [Executed \<lparr> batchId = b_id (batchAt (finishBatch e (t_index ?t) (t_inputRows ?t) fails st1) (t_index ?t)),
                        results = res,
                        exec_failures = failures (batchAt (finishBatch e (t_index ?t) (t_inputRows ?t) fails st1) (t_index ?t)) \<rparr>] \<rparr>)"
    by (rule resume_to_end) (simp_all add: False)
  then show ?thesis
    using found first by (simp add: executeBatch_def processRows_def Let_def case_prod_beta)
qed

text \<open>
  The same for \<open>retryFailedSubmissions\<close>: the call and then the settlements of its attempts,
  with nothing else in between, leave the outside world as \<open>retryFailedSubmissions\<close> run in
  one piece leaves it, and return the same value.
\<close>

lemma retryStep_last:
  assumes "retryTasks s = rs @ [t]"
  shows "retryStep e (length rs) s =
     (case processForm e (world (eng s)) (profile (r_failure t)) (row (r_failure t)) of
        (tried, w) \<Rightarrow>
          (case (case tried of
                   Inr result \<Rightarrow>
                     retryEnter (r_maxAttempts t) (r_rest t) (r_finalResults t @ [result]) (r_newFailures t)
                 | Inl message \<Rightarrow>
                     if r_attempt t + 1 \<le> r_maxAttempts t
                     then Inr (t \<lparr> r_attempt := r_attempt t + 1, r_lastError := message \<rparr>)
                     else retryEnter (r_maxAttempts t) (r_rest t) (r_finalResults t)
                            (r_newFailures t @
                               [(r_failure t) \<lparr> error := message, attempt := Some (r_attempt t + 1) \<rparr>])) of
             Inl res \<Rightarrow>
               s \<lparr> eng := (eng s) \<lparr> world := w \<rparr>, retryTasks := rs,
                   settled := settled s @ [Retried res] \<rparr>
           | Inr t1 \<Rightarrow> s \<lparr> eng := (eng s) \<lparr> world := w \<rparr>, retryTasks := rs @ [t1] \<rparr>))"
  using assms by (simp add: retryStep_def Let_def split: prod.splits sum.splits)

lemma steps_add:
  "foldl (\<lambda>s x. advance e x s) s (replicate (Suc n) x) =
     foldl (\<lambda>s x. advance e x s) (advance e x s) (replicate n x)"
  by simp

lemma retry_from_entry:
  assumes "retryTasks s = rs"
  shows "\<exists>n. foldl (\<lambda>s x. advance e x s)
               (case retryEnter maxA fails fin new of
                  Inl res \<Rightarrow> s \<lparr> settled := settled s @ [Retried res] \<rparr>
                | Inr t \<Rightarrow> s \<lparr> retryTasks := rs @ [t] \<rparr>)
               (replicate n (ResumeRetry (length rs))) =
             (case foldl (retryOne e maxA) (fin, new, world (eng s)) fails of
                (fin1, new1, w1) \<Rightarrow>
                  s \<lparr> eng := (eng s) \<lparr> world := w1 \<rparr>,
                      settled := settled s @
                        [Retried \<lparr> retry_succeeded = fin1, retry_failures = new1 \<rparr>] \<rparr>)"
  using assms
proof (induction fails arbitrary: s fin new)
  case Nil
  have "foldl (\<lambda>s x. advance e x s)
          (case retryEnter maxA [] fin new of
             Inl res \<Rightarrow> s \<lparr> settled := settled s @ [Retried res] \<rparr>
           | Inr t \<Rightarrow> s \<lparr> retryTasks := rs @ [t] \<rparr>)
          (replicate 0 (ResumeRetry (length rs))) =
        (case foldl (retryOne e maxA) (fin, new, world (eng s)) [] of
           (fin1, new1, w1) \<Rightarrow>
             s \<lparr> eng := (eng s) \<lparr> world := w1 \<rparr>,
                 settled := settled s @
                   [Retried \<lparr> retry_succeeded = fin1, retry_failures = new1 \<rparr>] \<rparr>)"
    by simp
  then show ?case by blast
next
  case (Cons f fs)
  let ?att0 = "orDefault (attempt f) 1"
  let ?task = "\<lambda>att le. \<lparr> r_maxAttempts = maxA, r_failure = f, r_attempt = att, r_lastError = le,
                          r_rest = fs, r_finalResults = fin, r_newFailures = new \<rparr>"
  let ?goal = "\<lambda>s1 acc.
      \<exists>n. foldl (\<lambda>s x. advance e x s) s1 (replicate n (ResumeRetry (length rs))) =
          (case foldl (retryOne e maxA) acc fs of
             (fin1, new1, w1) \<Rightarrow>
               s \<lparr> eng := (eng s) \<lparr> world := w1 \<rparr>,
                   settled := settled s @
                     [Retried \<lparr> retry_succeeded = fin1, retry_failures = new1 \<rparr>] \<rparr>)"
  text \<open>After the record \<open>f\<close> has been dealt with, the rest follows by induction.\<close>
  have rest: "?goal (case retryEnter maxA fs fin1 new1 of
                       Inl res \<Rightarrow> s \<lparr> eng := (eng s) \<lparr> world := w \<rparr>, retryTasks := rs,
                                     settled := settled s @ [Retried res] \<rparr>
                     | Inr t \<Rightarrow> s \<lparr> eng := (eng s) \<lparr> world := w \<rparr>, retryTasks := rs @ [t] \<rparr>)
                    (fin1, new1, w)" for fin1 new1 w
  proof -
    let ?s = "s \<lparr> eng := (eng s) \<lparr> world := w \<rparr> \<rparr>"
    have "retryTasks ?s = rs" using Cons.prems by simp
    have rs: "rs = retryTasks s" using Cons.prems by simp
    from Cons.IH [OF \<open>retryTasks ?s = rs\<close>, of fin1 new1] show ?thesis
      unfolding rs by (simp split: sum.splits)
  qed
  text \<open>While the call waits for an attempt on \<open>f\<close>.\<close>
  have waiting: "att \<le> maxA \<Longrightarrow>
      ?goal (s \<lparr> eng := (eng s) \<lparr> world := w \<rparr>, retryTasks := rs @ [?task att le] \<rparr>)
        (case retryLoop e maxA f att le w of
           (Some result, a, l, w1) \<Rightarrow> (fin @ [result], new, w1)
         | (None, a, l, w1) \<Rightarrow> (fin, new @ [f \<lparr> error := l, attempt := Some a \<rparr>], w1))"
    for att le w
  proof (induction "nat (maxA - att)" arbitrary: att le w)
    case 0
    then have last: "\<not> att + 1 \<le> maxA" by simp
    let ?s1 = "s \<lparr> eng := (eng s) \<lparr> world := w \<rparr>, retryTasks := rs @ [?task att le] \<rparr>"
    obtain tried w1 where pf: "processForm e w (profile f) (row f) = (tried, w1)"
      by (cases "processForm e w (profile f) (row f)")
    show ?case
    proof (cases tried)
      case (Inr result)
      have step: "retryStep e (length rs) ?s1 =
          (case retryEnter maxA fs (fin @ [result]) new of
             Inl res \<Rightarrow> s \<lparr> eng := (eng s) \<lparr> world := w1 \<rparr>, retryTasks := rs,
                           settled := settled s @ [Retried res] \<rparr>
           | Inr t \<Rightarrow> s \<lparr> eng := (eng s) \<lparr> world := w1 \<rparr>, retryTasks := rs @ [t] \<rparr>)"
        using pf Inr by (simp add: retryStep_last [of ?s1 rs "?task att le"] split: sum.splits)
      have loop: "retryLoop e maxA f att le w = (Some result, att, le, w1)"
        using "0.prems" pf Inr by (simp add: retryLoop.simps)
      from rest [where ?fin1.0 = "fin @ [result]" and ?new1.0 = new and w = w1] obtain n where
        "foldl (\<lambda>s x. advance e x s) (retryStep e (length rs) ?s1) (replicate n (ResumeRetry (length rs))) =
          (case foldl (retryOne e maxA) (fin @ [result], new, w1) fs of
             (fin1, new1, w1) \<Rightarrow>
               s \<lparr> eng := (eng s) \<lparr> world := w1 \<rparr>,
                   settled := settled s @
                     [Retried \<lparr> retry_succeeded = fin1, retry_failures = new1 \<rparr>] \<rparr>)"
        unfolding step by blast
      then have "foldl (\<lambda>s x. advance e x s) ?s1 (replicate (Suc n) (ResumeRetry (length rs))) =
          (case foldl (retryOne e maxA) (fin @ [result], new, w1) fs of
             (fin1, new1, w1) \<Rightarrow>
               s \<lparr> eng := (eng s) \<lparr> world := w1 \<rparr>,
                   settled := settled s @
                     [Retried \<lparr> retry_succeeded = fin1, retry_failures = new1 \<rparr>] \<rparr>)"
        by simp
      then show ?thesis unfolding loop by (simp only: prod.case option.case) blast
    next
      case (Inl message)
      have step: "retryStep e (length rs) ?s1 =
          (case retryEnter maxA fs fin (new @ [f \<lparr> error := message, attempt := Some (att + 1) \<rparr>]) of
             Inl res \<Rightarrow> s \<lparr> eng := (eng s) \<lparr> world := w1 \<rparr>, retryTasks := rs,
                           settled := settled s @ [Retried res] \<rparr>
           | Inr t \<Rightarrow> s \<lparr> eng := (eng s) \<lparr> world := w1 \<rparr>, retryTasks := rs @ [t] \<rparr>)"
        using pf Inl last by (simp add: retryStep_last [of ?s1 rs "?task att le"] split: sum.splits)
      have loop: "retryLoop e maxA f att le w = (None, att + 1, message, w1)"
        using "0.prems" pf Inl last by (simp add: retryLoop.simps [of e maxA f att] retryLoop.simps [of e maxA f "att + 1"])
      from rest [where ?fin1.0 = fin and ?new1.0 = "new @ [f \<lparr> error := message, attempt := Some (att + 1) \<rparr>]" and w = w1] obtain n where
        "foldl (\<lambda>s x. advance e x s) (retryStep e (length rs) ?s1) (replicate n (ResumeRetry (length rs))) =
          (case foldl (retryOne e maxA) (fin, new @ [f \<lparr> error := message, attempt := Some (att + 1) \<rparr>], w1) fs of
             (fin1, new1, w1) \<Rightarrow>
               s \<lparr> eng := (eng s) \<lparr> world := w1 \<rparr>,
                   settled := settled s @
                     [Retried \<lparr> retry_succeeded = fin1, retry_failures = new1 \<rparr>] \<rparr>)"
        unfolding step by blast
      then have "foldl (\<lambda>s x. advance e x s) ?s1 (replicate (Suc n) (ResumeRetry (length rs))) =
          (case foldl (retryOne e maxA) (fin, new @ [f \<lparr> error := message, attempt := Some (att + 1) \<rparr>], w1) fs of
             (fin1, new1, w1) \<Rightarrow>
               s \<lparr> eng := (eng s) \<lparr> world := w1 \<rparr>,
                   settled := settled s @
                     [Retried \<lparr> retry_succeeded = fin1, retry_failures = new1 \<rparr>] \<rparr>)"
        by simp
      then show ?thesis unfolding loop by (simp only: prod.case option.case) blast
    qed
  next
    case (Suc m)
    then have more: "att + 1 \<le> maxA" and m: "m = nat (maxA - (att + 1))" by simp_all
    let ?s1 = "s \<lparr> eng := (eng s) \<lparr> world := w \<rparr>, retryTasks := rs @ [?task att le] \<rparr>"
    obtain tried w1 where pf: "processForm e w (profile f) (row f) = (tried, w1)"
      by (cases "processForm e w (profile f) (row f)")
    show ?case
    proof (cases tried)
      case (Inr result)
      have step: "retryStep e (length rs) ?s1 =
          (case retryEnter maxA fs (fin @ [result]) new of
             Inl res \<Rightarrow> s \<lparr> eng := (eng s) \<lparr> world := w1 \<rparr>, retryTasks := rs,
                           settled := settled s @ [Retried res] \<rparr>
           | Inr t \<Rightarrow> s \<lparr> eng := (eng s) \<lparr> world := w1 \<rparr>, retryTasks := rs @ [t] \<rparr>)"
        using pf Inr by (simp add: retryStep_last [of ?s1 rs "?task att le"] split: sum.splits)
      have loop: "retryLoop e maxA f att le w = (Some result, att, le, w1)"
        using Suc.prems pf Inr by (simp add: retryLoop.simps)
      from rest [where ?fin1.0 = "fin @ [result]" and ?new1.0 = new and w = w1] obtain n where
        "foldl (\<lambda>s x. advance e x s) (retryStep e (length rs) ?s1) (replicate n (ResumeRetry (length rs))) =
          (case foldl (retryOne e maxA) (fin @ [result], new, w1) fs of
             (fin1, new1, w1) \<Rightarrow>
               s \<lparr> eng := (eng s) \<lparr> world := w1 \<rparr>,
                   settled := settled s @
                     [Retried \<lparr> retry_succeeded = fin1, retry_failures = new1 \<rparr>] \<rparr>)"
        unfolding step by blast
      then have "foldl (\<lambda>s x. advance e x s) ?s1 (replicate (Suc n) (ResumeRetry (length rs))) =
          (case foldl (retryOne e maxA) (fin @ [result], new, w1) fs of
             (fin1, new1, w1) \<Rightarrow>
               s \<lparr> eng := (eng s) \<lparr> world := w1 \<rparr>,
                   settled := settled s @
                     [Retried \<lparr> retry_succeeded = fin1, retry_failures = new1 \<rparr>] \<rparr>)"
        by simp
      then show ?thesis unfolding loop by (simp only: prod.case option.case) blast
    next
      case (Inl message)
      have step: "retryStep e (length rs) ?s1 =
          s \<lparr> eng := (eng s) \<lparr> world := w1 \<rparr>, retryTasks := rs @ [?task (att + 1) message] \<rparr>"
        using pf Inl more by (simp add: retryStep_last [of ?s1 rs "?task att le"])
      have loop: "retryLoop e maxA f att le w = retryLoop e maxA f (att + 1) message w1"
        using Suc.prems pf Inl by (simp add: retryLoop.simps [of e maxA f att])
      from Suc.hyps(1) [OF m more, of message w1] obtain n where
        "foldl (\<lambda>s x. advance e x s) (retryStep e (length rs) ?s1) (replicate n (ResumeRetry (length rs))) =
          (case foldl (retryOne e maxA)
                  (case retryLoop e maxA f (att + 1) message w1 of
                     (Some result, a, l, w1) \<Rightarrow> (fin @ [result], new, w1)
                   | (None, a, l, w1) \<Rightarrow> (fin, new @ [f \<lparr> error := l, attempt := Some a \<rparr>], w1)) fs of
             (fin1, new1, w1) \<Rightarrow>
               s \<lparr> eng := (eng s) \<lparr> world := w1 \<rparr>,
                   settled := settled s @
                     [Retried \<lparr> retry_succeeded = fin1, retry_failures = new1 \<rparr>] \<rparr>)"
        unfolding step by blast
      then have "foldl (\<lambda>s x. advance e x s) ?s1 (replicate (Suc n) (ResumeRetry (length rs))) =
          (case foldl (retryOne e maxA)
                  (case retryLoop e maxA f (att + 1) message w1 of
                     (Some result, a, l, w1) \<Rightarrow> (fin @ [result], new, w1)
                   | (None, a, l, w1) \<Rightarrow> (fin, new @ [f \<lparr> error := l, attempt := Some a \<rparr>], w1)) fs of
             (fin1, new1, w1) \<Rightarrow>
               s \<lparr> eng := (eng s) \<lparr> world := w1 \<rparr>,
                   settled := settled s @
                     [Retried \<lparr> retry_succeeded = fin1, retry_failures = new1 \<rparr>] \<rparr>)"
        by simp
      then show ?thesis unfolding loop by blast
    qed
  qed
  have one: "retryOne e maxA (fin, new, world (eng s)) f =
      (case retryLoop e maxA f ?att0 (error f) (world (eng s)) of
         (Some result, a, l, w1) \<Rightarrow> (fin @ [result], new, w1)
       | (None, a, l, w1) \<Rightarrow> (fin, new @ [f \<lparr> error := l, attempt := Some a \<rparr>], w1))"
    by (simp add: retryOne_def split: prod.splits option.splits)
  show ?case
  proof (cases "?att0 \<le> maxA")
    case True
    have same: "s \<lparr> eng := (eng s) \<lparr> world := world (eng s) \<rparr>, retryTasks := rs @ [?task ?att0 (error f)] \<rparr> =
        s \<lparr> retryTasks := rs @ [?task ?att0 (error f)] \<rparr>"
      by simp
    from waiting [OF True, where w = "world (eng s)" and le = "error f"] True show ?thesis
      unfolding same by (simp add: one)
  next
    case False
    then have loop: "retryLoop e maxA f ?att0 (error f) (world (eng s)) = (None, ?att0, error f, world (eng s))"
      by (simp add: retryLoop.simps)
    have same: "\<And>r. (case r of
                    Inl res \<Rightarrow> s \<lparr> eng := (eng s) \<lparr> world := world (eng s) \<rparr>, retryTasks := rs,
                                  settled := settled s @ [Retried res] \<rparr>
                  | Inr t \<Rightarrow> s \<lparr> eng := (eng s) \<lparr> world := world (eng s) \<rparr>, retryTasks := rs @ [t] \<rparr>) =
                 (case r of
                    Inl res \<Rightarrow> s \<lparr> settled := settled s @ [Retried res] \<rparr>
                  | Inr t \<Rightarrow> s \<lparr> retryTasks := rs @ [t] \<rparr>)"
      using Cons.prems by (auto split: sum.splits)
    from rest [where ?fin1.0 = fin and ?new1.0 = "new @ [f \<lparr> error := error f, attempt := Some ?att0 \<rparr>]" and w = "world (eng s)"] False
    show ?thesis
      unfolding same by (simp add: one loop)
  qed
qed

lemma uninterrupted_retry:
  "\<exists>n. foldl (\<lambda>s x. advance e x s) s
          (Call (RetryFailedSubmissions fails pol) # replicate n (ResumeRetry (length (retryTasks s)))) =
        s \<lparr> eng := snd (perform e (RetryFailedSubmissions fails pol) (eng s)),
            settled := settled s @ [fst (perform e (RetryFailedSubmissions fails pol) (eng s))] \<rparr>"
proof -
  from retry_from_entry [OF refl, of e s "orDefault (maxAttempts pol) 3" fails "[]" "[]"]
  obtain n where
    "foldl (\<lambda>s x. advance e x s)
       (case retryEnter (orDefault (maxAttempts pol) 3) fails [] [] of
          Inl res \<Rightarrow> s \<lparr> settled := settled s @ [Retried res] \<rparr>
        | Inr t \<Rightarrow> s \<lparr> retryTasks := retryTasks s @ [t] \<rparr>)
       (replicate n (ResumeRetry (length (retryTasks s)))) =
     (case foldl (retryOne e (orDefault (maxAttempts pol) 3)) ([], [], world (eng s)) fails of
        (fin1, new1, w1) \<Rightarrow>
          s \<lparr> eng := (eng s) \<lparr> world := w1 \<rparr>,
              settled := settled s @
                [Retried \<lparr> retry_succeeded = fin1, retry_failures = new1 \<rparr>] \<rparr>)"
    by blast
  then have "foldl (\<lambda>s x. advance e x s) s
          (Call (RetryFailedSubmissions fails pol) # replicate n (ResumeRetry (length (retryTasks s)))) =
        s \<lparr> eng := snd (perform e (RetryFailedSubmissions fails pol) (eng s)),
            settled := settled s @ [fst (perform e (RetryFailedSubmissions fails pol) (eng s))] \<rparr>"
    by (simp add: callStep_def retryFailedSubmissions_def case_prod_beta)
  then show ?thesis by blast
qed

text \<open>What the stretches of \<open>executeBatch\<close> do to the state file.\<close>

lemma begin_file:
  "stateFile (beginBatch e i rows st) =
     (case writeFileSync e (writes st) of
        Refused \<Rightarrow> stateFile st
      | Torn \<Rightarrow> Unparsable
      | _ \<Rightarrow> Entries (batches (beginBatch e i rows st)))"
  "writes (beginBatch e i rows st) = Suc (writes st)"
  by (simp_all add: beginBatch_def Let_def persist_file split: write_outcome.splits)

lemma finish_file_content:
  "stateFile (finishBatch e i rows fails st) =
     (case writeFileSync e (writes st) of
        Refused \<Rightarrow> stateFile st
      | Torn \<Rightarrow> Unparsable
      | _ \<Rightarrow> Entries (batches (finishBatch e i rows fails st)))"
  by (simp add: finishBatch_def Let_def persist_file split: write_outcome.splits)

text \<open>The concrete runs, step by step.\<close>

lemma first_scheduled:
  "batches (snd (scheduleBatchRun e ''p1'' ''cfg'' startup)) =
     [(uuidv4 e 0, newBatch e startup (uuidv4 e 0) ''p1'' ''cfg'')]"
  "findScheduled ''p1'' (batches (snd (scheduleBatchRun e ''p1'' ''cfg'' startup))) = Some 0"
  by (simp_all add: scheduleBatchRun_after mapSet_def startup_def findScheduled_def)

lemma startedRun_state:
  "eng (reached e startedRun) =
     beginBatch e 0 [''rowA''] (snd (scheduleBatchRun e ''p1'' ''cfg'' startup))"
  "tasks (reached e startedRun) =
     [\<lparr> t_index = 0, t_inputRows = [''rowA''], t_pending = [''rowA''],
        t_results = [], t_failures = [] \<rparr>]"
proof -
  let ?s1 = "boot \<lparr> eng := snd (scheduleBatchRun e ''p1'' ''cfg'' startup) \<rparr>"
  have r: "reached e startedRun = callStep e (ExecuteBatch ''p1'' [''rowA'']) ?s1"
    by (simp add: reached_def startedRun_def callStep_simps boot_def)
  have found: "findScheduled ''p1'' (batches (eng ?s1)) = Some 0"
    by (simp add: first_scheduled(2))
  from callStep_execute(3) [OF found, of "[''rowA'']" e]
  show "eng (reached e startedRun) =
     beginBatch e 0 [''rowA''] (snd (scheduleBatchRun e ''p1'' ''cfg'' startup))"
    and "tasks (reached e startedRun) =
     [\<lparr> t_index = 0, t_inputRows = [''rowA''], t_pending = [''rowA''],
        t_results = [], t_failures = [] \<rparr>]"
    unfolding r by (simp_all add: boot_def)
qed

lemma startedRun_batch:
  "length (batches (eng (reached e startedRun))) = 1"
  "fst (batches (eng (reached e startedRun)) ! 0) = uuidv4 e 0"
  "statusAt (reached e startedRun) 0 = Running"
proof -
  let ?st = "snd (scheduleBatchRun e ''p1'' ''cfg'' startup)"
  have i: "0 < length (batches ?st)" by (simp add: first_scheduled)
  show "length (batches (eng (reached e startedRun))) = 1"
    unfolding startedRun_state beginBatch_after(1) [OF i] by (simp add: first_scheduled)
  show "fst (batches (eng (reached e startedRun)) ! 0) = uuidv4 e 0"
    unfolding startedRun_state beginBatch_after(3) [OF i] by (simp add: first_scheduled)
  show "statusAt (reached e startedRun) 0 = Running"
    unfolding statusAt_def startedRun_state by (rule begin_status [OF i])
qed

lemma completedMeanwhile_state:
  "eng (reached unluckyEnv completedMeanwhile) =
     handleBatchCompletion unluckyEnv 0 None (eng (reached unluckyEnv startedRun))"
  "tasks (reached unluckyEnv completedMeanwhile) = tasks (reached unluckyEnv startedRun)"
  "length (batches (eng (reached unluckyEnv completedMeanwhile))) = 1"
  "fst (batches (eng (reached unluckyEnv completedMeanwhile)) ! 0) = 0"
  "statusAt (reached unluckyEnv completedMeanwhile) 0 = Completed"
proof -
  let ?s = "reached unluckyEnv startedRun"
  have r: "reached unluckyEnv completedMeanwhile = ?s \<lparr> eng := handleBatchCompletion unluckyEnv 0 None (eng ?s) \<rparr>"
    unfolding completedMeanwhile_def reached_snoc by (simp add: callStep_simps)
  have "mapGet 0 (batches (eng ?s)) = Some 0"
    unfolding mapGet_def
    using startedRun_batch(1,2) [of unluckyEnv] by (intro findIndex_first) simp_all
  note after = handleBatchCompletion_after [OF this, where e = unluckyEnv and sm = None]
  show "eng (reached unluckyEnv completedMeanwhile) =
     handleBatchCompletion unluckyEnv 0 None (eng (reached unluckyEnv startedRun))"
    and "tasks (reached unluckyEnv completedMeanwhile) = tasks (reached unluckyEnv startedRun)"
    unfolding r by simp_all
  show "length (batches (eng (reached unluckyEnv completedMeanwhile))) = 1"
    unfolding r using after(1) startedRun_batch(1) [of unluckyEnv] by simp
  show "fst (batches (eng (reached unluckyEnv completedMeanwhile)) ! 0) = 0"
    unfolding r using after(3) startedRun_batch(2) [of unluckyEnv] by simp
  show "statusAt (reached unluckyEnv completedMeanwhile) 0 = Completed"
    unfolding r statusAt_def using after(4) by simp
qed

lemma unlucky_row:
  "fst (snd (processRow unluckyEnv i (res, fails, st) r)) \<noteq> []"
  by (simp add: processRow_def unluckyEnv_def envWith_def simulatedProcessForm_def case_prod_beta)

lemma completedMeanwhile_resumed:
  "statusAt (advance unluckyEnv (Resume 0) (reached unluckyEnv completedMeanwhile)) 0 = Failed"
proof -
  let ?s = "reached unluckyEnv completedMeanwhile"
  have tk: "tasks ?s = [\<lparr> t_index = 0, t_inputRows = [''rowA''], t_pending = [''rowA''],
        t_results = [], t_failures = [] \<rparr>]"
    unfolding completedMeanwhile_state(2) by (rule startedRun_state)
  have k: "0 < length (tasks ?s)" and pend: "t_pending (tasks ?s ! 0) = [''rowA'']"
    and idx: "t_index (tasks ?s ! 0) = 0"
    by (simp_all add: tk)
  let ?out = "processRow unluckyEnv 0 (t_results (tasks ?s ! 0), t_failures (tasks ?s ! 0), eng ?s) ''rowA''"
  have i: "0 < length (batches (eng ?s))" using completedMeanwhile_state(3) by simp
  from row_keeps(1) [OF i, of unluckyEnv "t_results (tasks ?s ! 0)" "t_failures (tasks ?s ! 0)" "''rowA''"]
  have i1: "0 < length (batches (snd (snd ?out)))" using i by (simp add: touchesOnly_def)
  from resumeStep_effect(2) [OF k pend, of unluckyEnv]
  have "eng (resumeStep unluckyEnv 0 ?s) =
      finishBatch unluckyEnv 0 (t_inputRows (tasks ?s ! 0)) (fst (snd ?out)) (snd (snd ?out))"
    by (simp add: idx)
  then show ?thesis
    unfolding statusAt_def using finish_status(1) [OF i1] unlucky_row by simp
qed

lemma emptyRun_state:
  "statusAt (reached oneWriteEnv emptyRun) 0 = Completed"
  "stateFile (eng (reached oneWriteEnv emptyRun)) =
     Entries [(0, newBatch oneWriteEnv startup 0 ''p1'' ''cfg'')]"
proof -
  let ?st = "snd (scheduleBatchRun oneWriteEnv ''p1'' ''cfg'' startup)"
  let ?s1 = "boot \<lparr> eng := ?st \<rparr>"
  have r: "reached oneWriteEnv emptyRun = callStep oneWriteEnv (ExecuteBatch ''p1'' []) ?s1"
    by (simp add: reached_def emptyRun_def callStep_simps boot_def)
  have found: "findScheduled ''p1'' (batches (eng ?s1)) = Some 0"
    by (simp add: first_scheduled(2))
  note ex = callStep_execute(2) [OF found, of oneWriteEnv]
  have i: "0 < length (batches ?st)" by (simp add: first_scheduled)
  have i1: "0 < length (batches (beginBatch oneWriteEnv 0 [] ?st))"
    using i by (simp add: beginBatch_after(1))
  show "statusAt (reached oneWriteEnv emptyRun) 0 = Completed"
    unfolding statusAt_def r using ex finish_status(1) [OF i1] by simp
  have w: "writes startup = 0" "stateFile startup = Absent" by (simp_all add: startup_def)
  have f0: "stateFile ?st = Entries [(0, newBatch oneWriteEnv startup 0 ''p1'' ''cfg'')]"
    by (simp add: schedule_file w first_scheduled)
  have w0: "writes ?st = Suc 0" by (simp add: schedule_file w)
  have f1: "stateFile (beginBatch oneWriteEnv 0 [] ?st) = stateFile ?st"
    by (simp add: begin_file w0)
  have w1: "writes (beginBatch oneWriteEnv 0 [] ?st) = Suc (Suc 0)"
    by (simp add: begin_file w0)
  have "stateFile (finishBatch oneWriteEnv 0 [] [] (beginBatch oneWriteEnv 0 [] ?st)) = stateFile ?st"
    by (simp add: finish_file_content w1 f1)
  with f0 ex show "stateFile (eng (reached oneWriteEnv emptyRun)) =
     Entries [(0, newBatch oneWriteEnv startup 0 ''p1'' ''cfg'')]"
    unfolding r by simp
qed

lemma emptyRun_restarted:
  "statusAt (advance oneWriteEnv Restart (reached oneWriteEnv emptyRun)) 0 = Scheduled"
proof -
  have "inj (uuidv4 oneWriteEnv)" by simp
  then have "processOk oneWriteEnv (reached oneWriteEnv emptyRun)" by (rule processOk_reached)
  from step_restart(2) [OF this] emptyRun_state(2)
  show ?thesis by (simp add: statusAt_def batchAt_def)
qed

text \<open>
  C2 as stated fails, in three ways. A batch whose only row was rejected is \<open>failed\<close>, and
  \<open>handleBatchCompletion\<close> then moves it to \<open>completed\<close>. When \<open>handleBatchCompletion\<close>
  is called for a batch while \<open>executeBatch\<close> waits for the processor, the batch goes from
  \<open>running\<close> to \<open>completed\<close>, and the end of the run then moves it on to \<open>failed\<close>. And a
  batch that is \<open>completed\<close> in a process whose later writes of the state file were refused
  is \<open>scheduled\<close> again in the next process, which reads the file as the first write left
  it.
\<close>

theorem failed_batch_leaves_terminal_state:
  "fst (batches oneFailed ! 0) = 0 \<and>
   status (batchAt oneFailed 0) = Failed \<and>
   status (batchAt (handleBatchCompletion unluckyEnv 0 None oneFailed) 0) = Completed \<and>
   fst (batches (eng (reached unluckyEnv startedRun)) ! 0) = 0 \<and>
   statusAt (reached unluckyEnv startedRun) 0 = Running \<and>
   statusAt (advance unluckyEnv (Call (HandleBatchCompletion 0 None)) (reached unluckyEnv startedRun)) 0 =
     Completed \<and>
   statusAt (advance unluckyEnv (Resume 0)
      (advance unluckyEnv (Call (HandleBatchCompletion 0 None)) (reached unluckyEnv startedRun))) 0 =
     Failed \<and>
   statusAt (reached oneWriteEnv emptyRun) 0 = Completed \<and>
   statusAt (advance oneWriteEnv Restart (reached oneWriteEnv emptyRun)) 0 = Scheduled"
proof -
  let ?s1 = "snd (run unluckyEnv [ScheduleBatchRun ''p1'' ''cfg''] startup)"
  have s1: "batches ?s1 = [(0, newBatch unluckyEnv startup 0 ''p1'' ''cfg'')]"
    using scheduled_once [of unluckyEnv "''p1''" "''cfg''"] by simp
  have found: "findScheduled ''p1'' (batches ?s1) = Some 0"
    unfolding s1 by (simp add: findScheduled_def)
  have split: "oneFailed = snd (executeBatch unluckyEnv ''p1'' [''rowA''] ?s1)"
    by (simp add: oneFailed_def case_prod_beta split: sum.splits)
  from executeBatch_effect [OF found, of unluckyEnv "[''rowA'']"] obtain res fails st1 where
    run: "executeBatch unluckyEnv ''p1'' [''rowA''] ?s1 =
       (Inr \<lparr> batchId = b_id (batchAt ?s1 0), results = res, exec_failures = fails \<rparr>, st1)"
    and len: "length (batches st1) = length (batches ?s1)"
    and key: "fst (batches st1 ! 0) = fst (batches ?s1 ! 0)"
    and stat: "status (batchAt st1 0) = (if fails = [] then Completed else Failed)"
    and adv: "advancedBy ((progress (batchAt ?s1 0)) \<lparr> total := length [''rowA''] \<rparr>) (length res)
                (length fails) (progress (batchAt st1 0))"
    and n: "length res + length fails = length [''rowA'']"
    by metis
  have st1: "st1 = oneFailed" using run split by simp
  have "res = []"
  proof -
    have "fst (processRows unluckyEnv 0 [''rowA''] (beginBatch unluckyEnv 0 [''rowA''] ?s1)) = []"
      by (simp add: processRows_def processRow_def unluckyEnv_def envWith_def
            simulatedProcessForm_def case_prod_beta)
    moreover have "fst (processRows unluckyEnv 0 [''rowA''] (beginBatch unluckyEnv 0 [''rowA''] ?s1)) = res"
      using run found by (simp add: executeBatch_def Let_def case_prod_beta)
    ultimately show ?thesis by simp
  qed
  with n have "fails \<noteq> []" by auto
  with stat st1 have failed: "status (batchAt oneFailed 0) = Failed" by simp
  from key st1 s1 have k: "fst (batches oneFailed ! 0) = 0" by simp
  from len st1 s1 have l: "0 < length (batches oneFailed)" by simp
  have "mapGet 0 (batches oneFailed) = Some 0"
    unfolding mapGet_def using k l by (intro findIndex_first) simp_all
  from handleBatchCompletion_after(4) [OF this, of unluckyEnv None]
  have done1: "status (batchAt (handleBatchCompletion unluckyEnv 0 None oneFailed) 0) = Completed"
    by simp
  have meanwhile: "advance unluckyEnv (Call (HandleBatchCompletion 0 None)) (reached unluckyEnv startedRun) =
      reached unluckyEnv completedMeanwhile"
    unfolding completedMeanwhile_def reached_snoc by simp
  have key2: "fst (batches (eng (reached unluckyEnv startedRun)) ! 0) = 0"
    using startedRun_batch(2) [of unluckyEnv] by simp
  from k failed done1 key2 startedRun_batch(3) [of unluckyEnv] completedMeanwhile_state(5)
    completedMeanwhile_resumed emptyRun_state(1) emptyRun_restarted
  show ?thesis unfolding meanwhile by simp
qed

text \<open>
  C2, amended. Take a process after any steps (calls of the five functions, in any order
  and also while calls of \<open>executeBatch\<close> wait for the processor; settlements of the
  processor, each of which lets a waiting call of \<open>executeBatch\<close> or of
  \<open>retryFailedSubmissions\<close> run on; restarts), with identifiers from
  \<open>uuidv4\<close> pairwise different, and a batch of its map. One more step that is not a
  restart leaves the batch at its place under its key, and treats its status as follows.
  \<open>scheduleBatchRun\<close>, \<open>trackBatchProgress\<close> and \<open>retryFailedSubmissions\<close>, from its
  call to its return, do not change it. \<open>handleBatchCompletion\<close> sets the status of the batch it names to
  \<open>completed\<close>, whatever it was, and changes no other. \<open>executeBatch\<close> changes the
  status of the batch it takes and of no other: that batch was \<open>scheduled\<close>, is set to
  \<open>running\<close>, and with no rows it is \<open>completed\<close> when the call returns. A settlement
  changes only the batch of the call of \<open>executeBatch\<close> that waited for it: that batch is \<open>running\<close> or
  \<open>completed\<close> (the latter if \<open>handleBatchCompletion\<close> was called for it meanwhile); it
  keeps its status if rows are left, and after the last row it becomes \<open>completed\<close> when
  its failure list is empty and \<open>failed\<close> otherwise. A restart replaces the map by what the
  state file holds, and no call waits any more. Hence a \<open>failed\<close> batch leaves that state
  only by \<open>handleBatchCompletion\<close> for it or by a restart; a \<open>completed\<close> batch leaves
  that state only by becoming \<open>failed\<close> at the end of its own run or by a restart; and
  without a restart no batch becomes \<open>scheduled\<close> again.
\<close>

theorem status_transitions:
  assumes inj: "inj (uuidv4 e)"
      and reach: "s = reached e steps"
      and step: "s1 = advance e x s"
      and j: "j < length (batches (eng s))"
  shows "(x \<noteq> Restart \<longrightarrow>
            j < length (batches (eng s1)) \<and> fst (batches (eng s1) ! j) = fst (batches (eng s) ! j)) \<and>
         (case x of
            Call c \<Rightarrow>
              (case c of
                 ScheduleBatchRun prof cfg \<Rightarrow> statusAt s1 j = statusAt s j
               | RetryFailedSubmissions fails pol \<Rightarrow> statusAt s1 j = statusAt s j
               | TrackBatchProgress bid \<Rightarrow> statusAt s1 j = statusAt s j
               | HandleBatchCompletion bid sm \<Rightarrow>
                   statusAt s1 j = (if fst (batches (eng s) ! j) = bid then Completed else statusAt s j)
               | ExecuteBatch prof rows \<Rightarrow>
                   (if findScheduled prof (batches (eng s)) = Some j
                    then statusAt s j = Scheduled \<and>
                         status (batchAt (beginBatch e j rows (eng s)) j) = Running \<and>
                         statusAt s1 j = (if rows = [] then Completed else Running)
                    else statusAt s1 j = statusAt s j))
          | Resume k \<Rightarrow>
              (if k < length (tasks s) \<and> t_index (tasks s ! k) = j
               then (statusAt s j = Running \<or> statusAt s j = Completed) \<and>
                    statusAt s1 j =
                      (if length (t_pending (tasks s ! k)) = 1
                       then (if failures (batchAt (eng s1) j) = [] then Completed else Failed)
                       else statusAt s j)
               else statusAt s1 j = statusAt s j)
          | ResumeRetry k \<Rightarrow> statusAt s1 j = statusAt s j
          | Restart \<Rightarrow>
              batches (eng s1) = (case stateFile (eng s) of Entries m \<Rightarrow> m | _ \<Rightarrow> []) \<and>
              tasks s1 = []) \<and>
         (statusAt s j = Failed \<and> statusAt s1 j \<noteq> Failed \<longrightarrow>
            x = Restart \<or> (\<exists>sm. x = Call (HandleBatchCompletion (fst (batches (eng s) ! j)) sm))) \<and>
         (statusAt s j = Completed \<and> statusAt s1 j \<noteq> Completed \<longrightarrow>
            x = Restart \<or>
            (\<exists>k. x = Resume k \<and> k < length (tasks s) \<and> t_index (tasks s ! k) = j \<and>
                 statusAt s1 j = Failed)) \<and>
         (x \<noteq> Restart \<and> statusAt s1 j = Scheduled \<longrightarrow> statusAt s j = Scheduled)"
proof -
  have ok: "processOk e s" unfolding reach using inj by (rule processOk_reached)
  have unchanged: "statusAt s1 j = statusAt s j"
    if "j < length (batches (eng s1))" "batches (eng s1) ! j = batches (eng s) ! j"
    using that by (simp add: statusAt_def batchAt_def)
  show ?thesis
  proof (cases x)
    case (Call c)
    show ?thesis
    proof (cases c)
      case (ScheduleBatchRun prof cfg)
      have s1: "s1 = callStep e (ScheduleBatchRun prof cfg) s"
        unfolding step Call ScheduleBatchRun by simp
      from step_schedule(2) [OF ok inj j, of prof cfg]
      have a: "j < length (batches (eng s1))" and b: "batches (eng s1) ! j = batches (eng s) ! j"
        unfolding s1 by simp_all
      from a b have same: "statusAt s1 j = statusAt s j" by (rule unchanged)
      from b have key: "fst (batches (eng s1) ! j) = fst (batches (eng s) ! j)" by simp
      show ?thesis unfolding Call ScheduleBatchRun using a key same by simp
    next
      case (RetryFailedSubmissions fails pol)
      have s1: "s1 = callStep e (RetryFailedSubmissions fails pol) s"
        unfolding step Call RetryFailedSubmissions by simp
      from step_retry(2) [OF ok, of fails pol]
      have b: "batches (eng s1) = batches (eng s)" unfolding s1 by simp
      with j have a: "j < length (batches (eng s1))"
        and key: "fst (batches (eng s1) ! j) = fst (batches (eng s) ! j)"
        and same: "statusAt s1 j = statusAt s j"
        by (simp_all add: statusAt_def batchAt_def)
      show ?thesis unfolding Call RetryFailedSubmissions using a key same by simp
    next
      case (TrackBatchProgress bid)
      have s1: "s1 = s" unfolding step Call TrackBatchProgress by (simp add: callStep_simps)
      show ?thesis unfolding Call TrackBatchProgress using j s1 by simp
    next
      case (HandleBatchCompletion bid sm)
      have s1: "s1 = callStep e (HandleBatchCompletion bid sm) s"
        unfolding step Call HandleBatchCompletion by simp
      from step_complete(2) [OF ok j, of bid sm]
      have len: "length (batches (eng s1)) = length (batches (eng s))"
        and key: "fst (batches (eng s1) ! j) = fst (batches (eng s) ! j)"
        and stat: "statusAt s1 j = (if fst (batches (eng s) ! j) = bid then Completed else statusAt s j)"
        unfolding s1 statusAt_def by simp_all
      from len j have a: "j < length (batches (eng s1))" by simp
      have c: "statusAt s j = Failed \<and> statusAt s1 j \<noteq> Failed \<longrightarrow> fst (batches (eng s) ! j) = bid"
        using stat by (simp split: if_splits)
      have d: "\<not> (statusAt s j = Completed \<and> statusAt s1 j \<noteq> Completed)"
        using stat by (simp split: if_splits)
      have f: "statusAt s1 j = Scheduled \<longrightarrow> statusAt s j = Scheduled"
        using stat by (simp split: if_splits)
      show ?thesis unfolding Call HandleBatchCompletion step.case call.case
        using a key stat c d f by blast
    next
      case (ExecuteBatch prof rows)
      have s1: "s1 = callStep e (ExecuteBatch prof rows) s"
        unfolding step Call ExecuteBatch by simp
      show ?thesis
      proof (cases "findScheduled prof (batches (eng s))")
        case None
        from step_execute_none(2) [OF ok None, where rows = rows] have "eng s1 = eng s" unfolding s1 .
        with j have a: "j < length (batches (eng s1))"
          and key: "fst (batches (eng s1) ! j) = fst (batches (eng s) ! j)"
          and same: "statusAt s1 j = statusAt s j"
          by (simp_all add: statusAt_def)
        show ?thesis unfolding Call ExecuteBatch using a key same None by simp
      next
        case (Some i)
        note ex = step_execute [OF ok Some]
        from ex(2) have t: "touchesOnly i (eng s) (eng s1)" unfolding s1 .
        from t j have a: "j < length (batches (eng s1))" by (simp add: touchesOnly_def)
        from t have key: "fst (batches (eng s1) ! j) = fst (batches (eng s) ! j)"
          by (rule touchesOnly_key)
        show ?thesis
        proof (cases "j = i")
          case True
          from ex(3) ex(4) ex(5) True
          have b1: "statusAt s j = Scheduled"
            and b2: "status (batchAt (beginBatch e j rows (eng s)) j) = Running"
            and b3: "statusAt s1 j = (if rows = [] then Completed else Running)"
            unfolding s1 statusAt_def by simp_all
          from Some True have fd: "findScheduled prof (batches (eng s)) = Some j" by simp
          have c: "\<not> (statusAt s j = Failed \<and> statusAt s1 j \<noteq> Failed)" using b1 by simp
          have d: "\<not> (statusAt s j = Completed \<and> statusAt s1 j \<noteq> Completed)" using b1 by simp
          have f: "statusAt s1 j = Scheduled \<longrightarrow> statusAt s j = Scheduled" using b1 by simp
          show ?thesis unfolding Call ExecuteBatch step.case call.case
            using a key fd b1 b2 b3 c d f by simp
        next
          case False
          from touchesOnly_other [OF t False] have same: "statusAt s1 j = statusAt s j"
            by (simp add: statusAt_def)
          from Some False have fd: "findScheduled prof (batches (eng s)) \<noteq> Some j" by simp
          show ?thesis unfolding Call ExecuteBatch step.case call.case
            using a key fd same by simp
        qed
      qed
    qed
  next
    case (Resume k)
    have s1: "s1 = resumeStep e k s" unfolding step Resume by simp
    show ?thesis
    proof (cases "k < length (tasks s)")
      case False
      then have "s1 = s" unfolding s1 by (rule resumeStep_idle)
      with j False show ?thesis unfolding Resume by simp
    next
      case True
      note rs = step_resume [OF ok True]
      let ?i = "t_index (tasks s ! k)"
      from rs(2) have t: "touchesOnly ?i (eng s) (eng s1)" unfolding s1 .
      from t j have a: "j < length (batches (eng s1))" by (simp add: touchesOnly_def)
      from t have key: "fst (batches (eng s1) ! j) = fst (batches (eng s) ! j)"
        by (rule touchesOnly_key)
      show ?thesis
      proof (cases "?i = j")
        case same_batch: True
        from rs(3) rs(4) same_batch
        have live: "statusAt s j = Running \<or> statusAt s j = Completed"
          and stat: "statusAt s1 j =
                      (if length (t_pending (tasks s ! k)) = 1
                       then (if failures (batchAt (eng s1) j) = [] then Completed else Failed)
                       else statusAt s j)"
          unfolding s1 statusAt_def by simp_all
        have c: "\<not> (statusAt s j = Failed \<and> statusAt s1 j \<noteq> Failed)" using live by auto
        have d: "statusAt s j = Completed \<and> statusAt s1 j \<noteq> Completed \<longrightarrow> statusAt s1 j = Failed"
          using stat by (simp split: if_splits)
        have f: "statusAt s1 j = Scheduled \<longrightarrow> statusAt s j = Scheduled"
          using stat live by (auto split: if_splits)
        have cond: "k < length (tasks s) \<and> t_index (tasks s ! k) = j" using True same_batch by simp
        have A: "Resume k \<noteq> Restart \<longrightarrow>
            j < length (batches (eng s1)) \<and> fst (batches (eng s1) ! j) = fst (batches (eng s) ! j)"
          using a key by simp
        have B: "if k < length (tasks s) \<and> t_index (tasks s ! k) = j
               then (statusAt s j = Running \<or> statusAt s j = Completed) \<and>
                    statusAt s1 j =
                      (if length (t_pending (tasks s ! k)) = 1
                       then (if failures (batchAt (eng s1) j) = [] then Completed else Failed)
                       else statusAt s j)
               else statusAt s1 j = statusAt s j"
          using cond live stat by (simp only: if_True simp_thms)
        have C: "statusAt s j = Failed \<and> statusAt s1 j \<noteq> Failed \<longrightarrow>
            Resume k = Restart \<or> (\<exists>sm. Resume k = Call (HandleBatchCompletion (fst (batches (eng s) ! j)) sm))"
          using c by simp
        have D: "statusAt s j = Completed \<and> statusAt s1 j \<noteq> Completed \<longrightarrow>
            Resume k = Restart \<or>
            (\<exists>ka. Resume k = Resume ka \<and> ka < length (tasks s) \<and> t_index (tasks s ! ka) = j \<and>
                 statusAt s1 j = Failed)"
          using d cond by auto
        have E: "Resume k \<noteq> Restart \<and> statusAt s1 j = Scheduled \<longrightarrow> statusAt s j = Scheduled"
          using f by simp
        show ?thesis unfolding Resume step.case
          by (rule conjI [OF A conjI [OF B conjI [OF C conjI [OF D E]]]])
      next
        case other: False
        then have "j \<noteq> ?i" by simp
        from touchesOnly_other [OF t this] have same: "statusAt s1 j = statusAt s j"
          by (simp add: statusAt_def)
        from other have cond: "t_index (tasks s ! k) \<noteq> j" by simp
        show ?thesis unfolding Resume step.case
          using a key cond same by simp
      qed
    qed
  next
    case (ResumeRetry k)
    have s1: "s1 = retryStep e k s" unfolding step ResumeRetry by simp
    from step_retry_settles(2) [OF ok, of k]
    have b: "batches (eng s1) = batches (eng s)" unfolding s1 .
    with j have a: "j < length (batches (eng s1))"
      and key: "fst (batches (eng s1) ! j) = fst (batches (eng s) ! j)"
      and same: "statusAt s1 j = statusAt s j"
      by (simp_all add: statusAt_def batchAt_def)
    show ?thesis unfolding ResumeRetry using a key same by simp
  next
    case Restart
    have s1: "s1 = restartStep s" unfolding step Restart by simp
    from step_restart(2,3) [OF ok]
    have "batches (eng s1) = (case stateFile (eng s) of Entries m \<Rightarrow> m | _ \<Rightarrow> [])"
      and "tasks s1 = []"
      unfolding s1 by simp_all
    then show ?thesis unfolding Restart by simp
  qed
qed

theorem status_transitions_witness:
  "inj (uuidv4 unluckyEnv) \<and>
   0 < length (batches (eng (reached unluckyEnv completedMeanwhile))) \<and>
   0 < length (tasks (reached unluckyEnv completedMeanwhile)) \<and>
   t_index (tasks (reached unluckyEnv completedMeanwhile) ! 0) = 0 \<and>
   length (t_pending (tasks (reached unluckyEnv completedMeanwhile) ! 0)) = 1 \<and>
   statusAt (reached unluckyEnv completedMeanwhile) 0 = Completed \<and>
   fst (batches (eng (advance unluckyEnv (Resume 0) (reached unluckyEnv completedMeanwhile))) ! 0) =
     fst (batches (eng (reached unluckyEnv completedMeanwhile)) ! 0) \<and>
   statusAt (advance unluckyEnv (Resume 0) (reached unluckyEnv completedMeanwhile)) 0 =
     (if failures (batchAt (eng (advance unluckyEnv (Resume 0) (reached unluckyEnv completedMeanwhile))) 0) = []
      then Completed else Failed)"
proof -
  let ?s = "reached unluckyEnv completedMeanwhile"
  let ?s1 = "advance unluckyEnv (Resume 0) ?s"
  have inj: "inj (uuidv4 unluckyEnv)" by simp
  have j: "0 < length (batches (eng ?s))" using completedMeanwhile_state(3) by simp
  have tk: "tasks ?s = [\<lparr> t_index = 0, t_inputRows = [''rowA''], t_pending = [''rowA''],
        t_results = [], t_failures = [] \<rparr>]"
    unfolding completedMeanwhile_state(2) by (rule startedRun_state)
  have k: "0 < length (tasks ?s)" and idx: "t_index (tasks ?s ! 0) = 0"
    and pend: "length (t_pending (tasks ?s ! 0)) = 1"
    by (simp_all add: tk)
  note c = completedMeanwhile_state(5)
  from status_transitions [OF inj refl refl j, where x = "Resume 0"] k idx pend
  have "fst (batches (eng ?s1) ! 0) = fst (batches (eng ?s) ! 0)"
    and "statusAt ?s1 0 = (if failures (batchAt (eng ?s1) 0) = [] then Completed else Failed)"
    by simp_all
  with inj j k idx pend c show ?thesis by simp
qed

section \<open>The two copies of the batch processor\<close>

lemma persist_core: "persistBatchState_core e st = persistBatchState e st"
  by (simp add: persistBatchState_core_def persistBatchState_def)

lemma schedule_core: "scheduleBatchRun_core e prof cfg st = scheduleBatchRun e prof cfg st"
  by (simp add: scheduleBatchRun_core_def scheduleBatchRun_def newBatch_def zeroProgress_def
        persist_core Let_def)

lemma processRow_core: "processRow_core e i acc r = processRow e i acc r"
proof -
  obtain res fails st where acc: "acc = (res, fails, st)" by (cases acc)
  obtain out w where pf: "processForm e (world st) (b_profile (batchAt st i)) r = (out, w)"
    by (cases "processForm e (world st) (b_profile (batchAt st i)) r")
  show ?thesis
  proof (cases out)
    case (Inl m)
    with acc pf show ?thesis
      by (simp add: processRow_core_def processRow_def rowDone_def persist_core Let_def now_def)
  next
    case (Inr x)
    with acc pf show ?thesis
      by (simp add: processRow_core_def processRow_def rowDone_def persist_core Let_def now_def)
  qed
qed

lemma processRows_core: "foldl (processRow_core e i) acc rows = foldl (processRow e i) acc rows"
  by (induction rows arbitrary: acc) (simp_all add: processRow_core)

lemma execute_core: "executeBatch_core e prof rows st = executeBatch e prof rows st"
proof (cases "findScheduled prof (batches st)")
  case None
  then show ?thesis
    by (simp add: executeBatch_core_def executeBatch_def findScheduled_def batchProcessorI18n_def
          i18n_def)
next
  case (Some i)
  obtain res fails s1 where loop: "processRows e i rows (beginBatch e i rows st) = (res, fails, s1)"
    by (cases "processRows e i rows (beginBatch e i rows st)")
  have start: "emit (BatchStarted (b_id (batchAt (persistBatchState e (tick 1
                 (mutate i (\<lambda>b. b \<lparr> inputRows := rows,
                                       progress := (progress b) \<lparr> total := length rows \<rparr>,
                                       status := Running, updatedAt := now e st 0 \<rparr>) st))) i)))
               (persistBatchState e (tick 1
                 (mutate i (\<lambda>b. b \<lparr> inputRows := rows,
                                       progress := (progress b) \<lparr> total := length rows \<rparr>,
                                       status := Running, updatedAt := now e st 0 \<rparr>) st))) =
               beginBatch e i rows st"
    by (simp add: beginBatch_def Let_def)
  from Some have core: "findIndex (\<lambda>kv. b_profile (snd kv) = prof \<and> status (snd kv) = Scheduled)
      (batches st) = Some i"
    by (simp add: findScheduled_def)
  show ?thesis
    unfolding executeBatch_core_def executeBatch_def core Some option.case Let_def persist_core
      processRows_core start
    using loop by (simp add: processRows_def finishBatch_def Let_def)
qed

lemma retryLoop_core: "retryLoop_core e maxA failure att lastError w = retryLoop e maxA failure att lastError w"
proof (induction e maxA failure att lastError w rule: retryLoop.induct)
  case (1 e maxA failure att lastError w)
  show ?case
  proof (cases "att \<le> maxA")
    case False
    then show ?thesis
      by (simp add: retryLoop_core.simps [of e maxA failure att] retryLoop.simps [of e maxA failure att])
  next
    case True
    obtain out w1 where pf: "processForm e w (profile failure) (row failure) = (out, w1)"
      by (cases "processForm e w (profile failure) (row failure)")
    show ?thesis
    proof (cases out)
      case (Inr x)
      with True pf show ?thesis
        by (simp add: retryLoop_core.simps [of e maxA failure att] retryLoop.simps [of e maxA failure att])
    next
      case (Inl m)
      have "retryLoop_core e maxA failure (att + 1) m w1 = retryLoop e maxA failure (att + 1) m w1"
        using "1.IH" True pf Inl by simp
      with True pf Inl show ?thesis
        by (simp add: retryLoop_core.simps [of e maxA failure att] retryLoop.simps [of e maxA failure att])
    qed
  qed
qed

lemma retry_core: "retryFailedSubmissions_core e fails pol st = retryFailedSubmissions e fails pol st"
proof -
  have "(\<lambda>acc failure.
          case acc of (finalResults, newFailures, w) \<Rightarrow>
            (case retryLoop_core e (orDefault (maxAttempts pol) 3) failure
                    (orDefault (attempt failure) 1) (error failure) w of
               (Some result, att, lastError, w1) \<Rightarrow> (finalResults @ [result], newFailures, w1)
             | (None, att, lastError, w1) \<Rightarrow>
                 (finalResults,
                  newFailures @ [failure \<lparr> error := lastError, attempt := Some att \<rparr>], w1))) =
        retryOne e (orDefault (maxAttempts pol) 3)"
    by (intro ext) (simp add: retryOne_def retryLoop_core)
  then show ?thesis
    by (simp add: retryFailedSubmissions_core_def retryFailedSubmissions_def)
qed

lemma track_core: "trackBatchProgress_core bid st = trackBatchProgress bid st"
  by (simp add: trackBatchProgress_core_def trackBatchProgress_def mapGet_def split: option.splits)

lemma complete_core: "handleBatchCompletion_core e bid sm st = handleBatchCompletion e bid sm st"
  by (simp add: handleBatchCompletion_core_def handleBatchCompletion_def mapGet_def persist_core
        Let_def split: option.splits)

lemma perform_core: "perform_core e c st = perform e c st"
  by (cases c) (simp_all add: schedule_core execute_core retry_core track_core complete_core)

lemma run_core_run: "run_core e calls st = run e calls st"
  by (induction calls arbitrary: st) (simp_all add: perform_core)

text \<open>
  C10: on the same calls with the same arguments, from equal batch states, and with the
  same answers from outside (identifiers, clock readings, outcome of each write and of each
  per-row submission), the engine of src/unnamed/part_000 and its copy in
  src/unnamed/part_003 return the same results and leave the same state; this holds for
  each of the five operations and for every sequence of them. The two files also load
  the state file in the same way, and their placeholder processors are the same function.
\<close>

theorem copies_agree:
  "scheduleBatchRun_core e prof cfg st = scheduleBatchRun e prof cfg st \<and>
   executeBatch_core e prof rows st = executeBatch e prof rows st \<and>
   retryFailedSubmissions_core e fails pol st = retryFailedSubmissions e fails pol st \<and>
   trackBatchProgress_core bid st = trackBatchProgress bid st \<and>
   handleBatchCompletion_core e bid sm st = handleBatchCompletion e bid sm st \<and>
   run_core e calls st = run e calls st \<and>
   loadBatchState_core st = loadBatchState st \<and>
   simulatedProcessFormForBatch rnd = simulatedProcessForm rnd"
proof -
  have "simulatedProcessFormForBatch rnd = simulatedProcessForm rnd"
    by (intro ext) (simp add: simulatedProcessFormForBatch_def simulatedProcessForm_def
          batchProcessorI18n_def i18n_def)
  then show ?thesis
    by (simp add: schedule_core execute_core retry_core track_core complete_core run_core_run
          loadBatchState_core_def loadBatchState_def)
qed

end
